theory Spec2Isabelle
  imports Main
begin

section \<open>The message-stream gateway (RabbitMQ/RabbitMQStreams.py)\<close>

subsection \<open>Exceptions, log records and observable events\<close>

text \<open>
  The exceptions the gateway handles by name, all of them subclasses of Python's
  \<open>Exception\<close>. \<open>OtherException\<close> stands for any further subclass of \<open>Exception\<close>
  (its argument is the exception's text).
\<close>

datatype exn =
    ConnectionRefusedError
  | StreamAlreadyExists
  | StreamDoesNotExist
  | KeyError string
  | OtherException string

text \<open>
  What can be raised inside the pull loop of \<open>consume_messages\<close>: an \<open>Exception\<close>, or one
  of the two \<open>BaseException\<close>s that are not \<open>Exception\<close>s, task cancellation and the
  closing of the generator by its caller.
\<close>

datatype signal = Exc exn | CancelledError | GeneratorExit

datatype level = DEBUG | INFO | WARNING | ERROR | EXCEPTION

text \<open>
  One constructor per logging call of the source, with the values the message
  interpolates. \<open>EXCEPTION\<close> is \<open>logger.exception\<close>.
\<close>

datatype logmsg =
    Connection_refused_retrying string
  | Stream_created string
  | Stream_already_exists string
  | Failed_after_10_attempts string
  | Failed_after_5_attempts string
  | Error_creating_stream string exn
  | Initialized_streams "string list"
  | Failed_to_create_streams "string list"
  | Sending_message_to_stream string
  | Stream_does_not_exist string
  | Error_sending_to_stream exn
  | Error_parsing_message exn
  | Cancelled_error
  | Error_in_consumption_loop exn
  | Error_in_consume_messages exn
  | Inside_finally
  | Trying_to_close
  | Error_closing_consumer exn

type_synonym bytes = string

text \<open>
  Everything the gateway does to the outside, in the order it happens: calls of the
  producer and of a consumer, \<open>asyncio.sleep\<close>, log records, and a coroutine object that
  is created and never awaited (its body never runs).
\<close>

datatype event =
    Producer_create_stream string
  | Producer_send string bytes
  | Sleep nat
  | Log level logmsg
  | Coroutine_never_awaited string int int
  | Consumer_new
  | Consumer_start
  | Consumer_subscribe string
  | Consumer_close

text \<open>
  The gateway object: \<open>self.streams_status\<close> (the Registry) and the history of
  events.
\<close>

record gateway =
  streams_status :: "string \<rightharpoonup> bool"
  trace :: "event list"

definition emit :: "event list \<Rightarrow> gateway \<Rightarrow> gateway" where
  "emit es s = s\<lparr>trace := trace s @ es\<rparr>"

text \<open>
  The broker behind the producer is outside the program. Its answer to a call is a
  function of the history so far, so that any sequence of answers can be scripted;
  \<open>None\<close> is a call that returns, \<open>Some e\<close> one that raises \<open>e\<close>.
\<close>

type_synonym create_oracle = "event list \<Rightarrow> string \<Rightarrow> exn option"
type_synonym send_oracle = "event list \<Rightarrow> string \<Rightarrow> bytes \<Rightarrow> exn option"

subsection \<open>\<open>str.strip\<close>\<close>

text \<open>
  \<open>str.isspace\<close> on the code points below 256: tab to carriage return, the four
  separators 28 to 31, the space, NEL (133) and the no-break space (160).
\<close>

definition isspace :: "char \<Rightarrow> bool" where
  "isspace c =
     (let n = (of_char c :: nat)
      in (9 \<le> n \<and> n \<le> 13) \<or> (28 \<le> n \<and> n \<le> 32) \<or> n = 133 \<or> n = 160)"

definition strip :: "string \<Rightarrow> string" where
  "strip s = rev (dropWhile isspace (rev (dropWhile isspace s)))"

subsection \<open>\<open>create_stream\<close>\<close>

text \<open>
  \<^verbatim>\<open>
  async def create_stream(self, room, retry = 10, count = 0):
      if count >= retry:
          raise ConnectionRefusedError
      if room.strip() not in [None, '']:
          try:
              await self.producer.create_stream(room)
          except ConnectionRefusedError as e:
              self.logger.error(...)
              await asyncio.sleep(5)
              self.create_stream(room, retry, count + 1)
  \<close>
  The last line calls the coroutine function without \<open>await\<close>: it builds a coroutine
  object and drops it, so the body is not run again and the function returns \<open>None\<close>.
  The model is therefore not recursive.
\<close>

definition create_stream ::
  "create_oracle \<Rightarrow> string \<Rightarrow> int \<Rightarrow> int \<Rightarrow> gateway \<Rightarrow> (exn + unit) \<times> gateway" where
  "create_stream broker room retry count s =
     (if count \<ge> retry then (Inl ConnectionRefusedError, s)
      else if strip room \<noteq> [] then
        (let s1 = emit [Producer_create_stream room] s
         in case broker (trace s) room of
              None \<Rightarrow> (Inr (), s1)
            | Some ConnectionRefusedError \<Rightarrow>
                (Inr (), emit [Log ERROR (Connection_refused_retrying room), Sleep 5,
                               Coroutine_never_awaited room retry (count + 1)] s1)
            | Some e \<Rightarrow> (Inl e, s1))
      else (Inr (), s))"

text \<open>The broker that refuses every connection, and the one that accepts every call.\<close>

definition refusing :: create_oracle where
  "refusing h room = Some ConnectionRefusedError"

definition accepting :: create_oracle where
  "accepting h room = None"

definition gateway0 :: gateway where
  "gateway0 = \<lparr>streams_status = Map.empty, trace = []\<rparr>"

text \<open>How often the producer's \<open>create_stream\<close> was called, and the sleeps, in a history.\<close>

fun is_create :: "event \<Rightarrow> bool" where
  "is_create (Producer_create_stream r) = True"
| "is_create _ = False"

definition create_calls :: "event list \<Rightarrow> event list" where
  "create_calls h = filter is_create h"

fun sleeps :: "event list \<Rightarrow> nat list" where
  "sleeps [] = []"
| "sleeps (Sleep n # h) = n # sleeps h"
| "sleeps (e # h) = sleeps h"

subsection \<open>\<open>_init_streams\<close>\<close>

definition set_status :: "string \<Rightarrow> bool \<Rightarrow> gateway \<Rightarrow> gateway" where
  "set_status room v s = s\<lparr>streams_status := (streams_status s)(room \<mapsto> v)\<rparr>"

text \<open>
  The body of the \<open>for\<close> loop: one \<open>create_stream(room)\<close> with the default arguments
  and the four handlers, on the pair of the local list \<open>failed\<close> and the gateway.
  \<^verbatim>\<open>
  try:
      await self.create_stream(room)
      self.logger.info(...)
      self.streams_status[room] = True
  except exceptions.StreamAlreadyExists as e:
      self.logger.warning(...)
      self.streams_status[room] = True
  except ConnectionRefusedError as e:
      self.logger.error(...)
      self.streams_status[room] = False
      failed.append(room)
  except Exception as e:
      self.logger.exception(...)
      self.streams_status[room] = False
      failed.append(room)
  \<close>
\<close>

definition init_step ::
  "create_oracle \<Rightarrow> string \<Rightarrow> string list \<times> gateway \<Rightarrow> string list \<times> gateway" where
  "init_step broker room fs =
     (case fs of (failed, s) \<Rightarrow>
        (case create_stream broker room 10 0 s of
           (Inr u, s1) \<Rightarrow>
             (failed, set_status room True (emit [Log INFO (Stream_created room)] s1))
         | (Inl e, s1) \<Rightarrow>
             (case e of
                StreamAlreadyExists \<Rightarrow>
                  (failed,
                   set_status room True (emit [Log WARNING (Stream_already_exists room)] s1))
              | ConnectionRefusedError \<Rightarrow>
                  (failed @ [room],
                   set_status room False (emit [Log ERROR (Failed_after_10_attempts room)] s1))
              | _ \<Rightarrow>
                  (failed @ [room],
                   set_status room False
                     (emit [Log EXCEPTION (Error_creating_stream room e)] s1)))))"

fun init_loop ::
  "create_oracle \<Rightarrow> string list \<Rightarrow> string list \<times> gateway \<Rightarrow> string list \<times> gateway" where
  "init_loop broker [] fs = fs"
| "init_loop broker (room # rest) fs = init_loop broker rest (init_step broker room fs)"

text \<open>
  \<^verbatim>\<open>
  async def _init_streams(self, channels: list):
      failed = []
      if channels:
          for room in channels: ...
      self.logger.info(f"Initialized streams: {channels}")
      self.logger.warning(f"Failed to create streams: {failed}") if failed else None
      return channels
  \<close>
  The value returned is the argument \<open>channels\<close>.
\<close>

definition init_streams ::
  "create_oracle \<Rightarrow> string list \<Rightarrow> gateway \<Rightarrow> string list \<times> gateway" where
  "init_streams broker channels s =
     (case (if channels \<noteq> [] then init_loop broker channels ([], s) else ([], s)) of
        (failed, s1) \<Rightarrow>
          (let s2 = emit [Log INFO (Initialized_streams channels)] s1;
               s3 = (if failed \<noteq> [] then emit [Log WARNING (Failed_to_create_streams failed)] s2
                     else s2)
           in (channels, s3)))"

subsection \<open>\<open>send_to_stream\<close>\<close>

text \<open>
  The handler of \<open>StreamDoesNotExist\<close>. Its first statement reads
  \<open>self.streams_status[room]\<close>, which raises \<open>KeyError\<close> for a room the Registry does
  not hold; an exception raised inside a handler is not caught by the sibling
  \<open>except Exception\<close> and reaches the caller. The two inner handlers log and do not
  re-raise.
  \<^verbatim>\<open>
  except exceptions.StreamDoesNotExist as e:
      self.streams_status[room]
      self.logger.error(...)
      try:
          await self.create_stream(room, 5)
          self.logger.info(...)
          self.streams_status[room] = True
      except ConnectionRefusedError as e:
          self.logger.error(...)
      except Exception as e:
          self.logger.exception(...)
  \<close>
\<close>

definition stream_missing_handler ::
  "create_oracle \<Rightarrow> string \<Rightarrow> gateway \<Rightarrow> (exn + unit) \<times> gateway" where
  "stream_missing_handler broker room s =
     (case streams_status s room of
        None \<Rightarrow> (Inl (KeyError room), s)
      | Some v \<Rightarrow>
          (case create_stream broker room 5 0 (emit [Log ERROR (Stream_does_not_exist room)] s) of
             (Inr u, s2) \<Rightarrow>
               (Inr (), set_status room True (emit [Log INFO (Stream_created room)] s2))
           | (Inl e, s2) \<Rightarrow>
               (case e of
                  ConnectionRefusedError \<Rightarrow>
                    (Inr (), emit [Log ERROR (Failed_after_5_attempts room)] s2)
                | _ \<Rightarrow>
                    (Inr (), emit [Log EXCEPTION (Error_creating_stream room e)] s2))))"

text \<open>The handlers of the outer \<open>try\<close>, in the source's order.\<close>

definition send_handlers ::
  "create_oracle \<Rightarrow> string \<Rightarrow> exn \<Rightarrow> gateway \<Rightarrow> (exn + unit) \<times> gateway" where
  "send_handlers broker room e s =
     (if e = StreamDoesNotExist then stream_missing_handler broker room s
      else (Inl e, emit [Log EXCEPTION (Error_sending_to_stream e)] s))"

text \<open>
  \<^verbatim>\<open>
  async def send_to_stream(self, room, message):
      try:
          self.logger.debug(...)
          message = message.SerializeToString()
          await self.producer.send(stream=room, message=message, on_publish_confirm=None)
      except exceptions.StreamDoesNotExist as e: ...
      except Exception as e:
          self.logger.exception(...)
          raise
  \<close>
  \<open>encode\<close> is \<open>SerializeToString\<close> of the payload, supplied from outside.
\<close>

definition send_to_stream ::
  "('m \<Rightarrow> exn + bytes) \<Rightarrow> create_oracle \<Rightarrow> send_oracle \<Rightarrow> string \<Rightarrow> 'm \<Rightarrow> gateway
     \<Rightarrow> (exn + unit) \<times> gateway" where
  "send_to_stream encode cbroker sbroker room message s =
     (let s0 = emit [Log DEBUG (Sending_message_to_stream room)] s
      in case encode message of
           Inl e \<Rightarrow> send_handlers cbroker room e s0
         | Inr b \<Rightarrow>
             (let s1 = emit [Producer_send room b] s0
              in case sbroker (trace s0) room b of
                   None \<Rightarrow> (Inr (), s1)
                 | Some e \<Rightarrow> send_handlers cbroker room e s1))"

text \<open>
  For stating what the loop leaves in the Registry: the results of its successive
  \<open>create_stream\<close> calls, one per element of \<open>channels\<close>, each on the state the loop
  has reached; and the value the handlers store for a result (\<open>True\<close> after a normal
  return and after \<open>StreamAlreadyExists\<close>, \<open>False\<close> in the two other handlers).
\<close>

fun create_outcomes ::
  "create_oracle \<Rightarrow> string list \<Rightarrow> string list \<times> gateway \<Rightarrow> (exn + unit) list" where
  "create_outcomes broker [] fs = []"
| "create_outcomes broker (room # rest) fs =
     fst (create_stream broker room 10 0 (snd fs))
       # create_outcomes broker rest (init_step broker room fs)"

definition outcome_ready :: "exn + unit \<Rightarrow> bool" where
  "outcome_ready r = (case r of Inr u \<Rightarrow> True | Inl e \<Rightarrow> e = StreamAlreadyExists)"


text \<open>
  Inputs for the publish path: a broker on which every stream is missing, one whose
  \<open>send\<close> fails with an unexpected error, an encoder that succeeds and one that fails,
  and a gateway whose Registry holds the room \<open>chat\<close>.
\<close>

definition missing :: send_oracle where
  "missing h room b = Some StreamDoesNotExist"

definition send_fails :: send_oracle where
  "send_fails h room b = Some (OtherException ''broker down'')"

definition encode_ok :: "string \<Rightarrow> exn + bytes" where
  "encode_ok m = Inr m"

definition encode_fails :: "string \<Rightarrow> exn + bytes" where
  "encode_fails m = Inl (OtherException ''not serializable'')"

definition registered :: gateway where
  "registered = \<lparr>streams_status = [''chat'' \<mapsto> True], trace = []\<rparr>"


subsection \<open>\<open>consume_messages\<close>\<close>

text \<open>
  What lies outside the generator: whether the constructor \<open>Consumer(...)\<close>,
  \<open>consumer.start()\<close>, \<open>consumer.subscribe(...)\<close> and \<open>consumer.close()\<close> raise, and
  the decoder (\<open>ChatMessage.ParseFromString\<close>), which returns the message or raises.
\<close>

record 'm consumer_env =
  new_raises :: "exn option"
  start_raises :: "exn option"
  subscribe_raises :: "exn option"
  close_raises :: "signal option"
  decode :: "bytes \<Rightarrow> exn + 'm"

text \<open>
  How a generator stands: still alive (suspended in \<open>messages.get()\<close> or at
  \<open>yield\<close>), finished by returning, or finished by an exception that leaves it.
\<close>

datatype exit_state = Running | Returned | Raised signal

text \<open>
  The locals of one call: \<open>consumer\<close> (is it set), the queue \<open>messages\<close>, and what
  has been yielded to the caller so far. The queue is an \<open>asyncio.Queue\<close>: its
  \<open>maxsize\<close>, its items, and the items of the \<open>put\<close> calls that wait for a free slot.
\<close>

record 'm subscription =
  consumer :: bool
  maxsize :: int
  items :: "'m list"
  putters :: "'m list"
  yielded :: "'m list"
  outcome :: exit_state

text \<open>
  \<open>asyncio.Queue\<close>: \<open>full()\<close> is false when \<open>maxsize <= 0\<close>, else \<open>qsize() >= maxsize\<close>;
  \<open>put\<close> waits while the queue is full; \<open>get\<close> takes the first item and wakes the
  first waiting \<open>put\<close>.
\<close>

definition full :: "'m subscription \<Rightarrow> bool" where
  "full c = (if maxsize c \<le> 0 then False else int (length (items c)) \<ge> maxsize c)"

definition put :: "'m \<Rightarrow> 'm subscription \<Rightarrow> 'm subscription" where
  "put m c = (if full c then c\<lparr>putters := putters c @ [m]\<rparr> else c\<lparr>items := items c @ [m]\<rparr>)"

definition wake_putter :: "'m subscription \<Rightarrow> 'm subscription" where
  "wake_putter c =
     (case putters c of
        [] \<Rightarrow> c
      | p # ps \<Rightarrow> if full c then c else c\<lparr>items := items c @ [p], putters := ps\<rparr>)"

text \<open>
  The \<open>finally\<close> block, entered with the way the generator is about to end.
  \<^verbatim>\<open>
  finally:
      self.logger.debug("inside consume_message finally")
      if consumer:
          try:
              self.logger.debug("trying to close the consumer")
              await consumer.close()
          except Exception as e:
              self.logger.exception(...)
  \<close>
\<close>

definition finally_close ::
  "'m consumer_env \<Rightarrow> exit_state \<Rightarrow> gateway \<times> 'm subscription \<Rightarrow> gateway \<times> 'm subscription" where
  "finally_close env ending gc =
     (case gc of (g, c) \<Rightarrow>
        (let g1 = emit [Log DEBUG Inside_finally] g
         in if consumer c then
              (let g2 = emit [Log DEBUG Trying_to_close, Consumer_close] g1
               in case close_raises env of
                    None \<Rightarrow> (g2, c\<lparr>outcome := ending\<rparr>)
                  | Some (Exc e) \<Rightarrow>
                      (emit [Log EXCEPTION (Error_closing_consumer e)] g2, c\<lparr>outcome := ending\<rparr>)
                  | Some sig \<Rightarrow> (g2, c\<lparr>outcome := Raised sig\<rparr>))
            else (g1, c\<lparr>outcome := ending\<rparr>)))"

text \<open>
  The handler of the outer \<open>try\<close>, for an exception of the opening statements:
  \<open>except Exception as e: self.logger.exception(...); raise\<close>, then \<open>finally\<close>.
\<close>

definition opening_failed ::
  "'m consumer_env \<Rightarrow> exn \<Rightarrow> gateway \<times> 'm subscription \<Rightarrow> gateway \<times> 'm subscription" where
  "opening_failed env e gc =
     (case gc of (g, c) \<Rightarrow>
        finally_close env (Raised (Exc e))
          (emit [Log EXCEPTION (Error_in_consume_messages e)] g, c))"

text \<open>
  The statements before the loop.
  \<^verbatim>\<open>
  consumer = None
  try:
      consumer = Consumer(...)
      messages = Queue()
      ...
      await consumer.start()
      await consumer.subscribe(stream=room, callback=on_message, ...)
  \<close>
  \<open>Queue()\<close> has the default \<open>maxsize = 0\<close>.
\<close>

definition open_consumer ::
  "'m consumer_env \<Rightarrow> string \<Rightarrow> gateway \<Rightarrow> gateway \<times> 'm subscription" where
  "open_consumer env room g =
     (let c0 = \<lparr>consumer = False, maxsize = 0, items = [], putters = [], yielded = [],
                outcome = Running\<rparr>;
          g1 = emit [Consumer_new] g
      in case new_raises env of
           Some e \<Rightarrow> opening_failed env e (g1, c0)
         | None \<Rightarrow>
             (let c1 = c0\<lparr>consumer := True\<rparr>;
                  g2 = emit [Consumer_start] g1
              in case start_raises env of
                   Some e \<Rightarrow> opening_failed env e (g2, c1)
                 | None \<Rightarrow>
                     (let g3 = emit [Consumer_subscribe room] g2
                      in case subscribe_raises env of
                           Some e \<Rightarrow> opening_failed env e (g3, c1)
                         | None \<Rightarrow> (g3, c1))))"

text \<open>
  The callback the broker calls with the bytes of one message.
  \<^verbatim>\<open>
  async def on_message(msg, message_context):
      try:
          message = chat_pb2.ChatMessage()
          message.ParseFromString(msg)
          await messages.put(message)
      except Exception as e:
          self.logger.exception(...)
  \<close>
\<close>

definition on_message ::
  "'m consumer_env \<Rightarrow> bytes \<Rightarrow> gateway \<times> 'm subscription \<Rightarrow> gateway \<times> 'm subscription" where
  "on_message env b gc =
     (case gc of (g, c) \<Rightarrow>
        (case decode env b of
           Inl e \<Rightarrow> (emit [Log EXCEPTION (Error_parsing_message e)] g, c)
         | Inr m \<Rightarrow> (g, put m c)))"

text \<open>
  One turn of \<open>while True: msg = await messages.get(); yield msg\<close> when the caller
  asks for the next message: with an item in the queue it is taken and yielded; with
  none the caller stays suspended in \<open>get\<close>.
\<close>

definition pull :: "gateway \<times> 'm subscription \<Rightarrow> gateway \<times> 'm subscription" where
  "pull gc =
     (case gc of (g, c) \<Rightarrow>
        (case items c of
           [] \<Rightarrow> (g, c)
         | m # rest \<Rightarrow> (g, wake_putter (c\<lparr>items := rest, yielded := yielded c @ [m]\<rparr>))))"

text \<open>
  An exception raised at the suspension point of the loop, and the handlers around
  it: \<open>except asyncio.CancelledError\<close> and \<open>except Exception\<close> log and fall through to the
  end of the function; \<open>GeneratorExit\<close> (the caller closes the generator) is caught by
  neither, nor by the outer \<open>except Exception\<close>. Then \<open>finally\<close>.
\<close>

definition raise_in_loop ::
  "'m consumer_env \<Rightarrow> signal \<Rightarrow> gateway \<times> 'm subscription \<Rightarrow> gateway \<times> 'm subscription" where
  "raise_in_loop env sig gc =
     (case gc of (g, c) \<Rightarrow>
        (case sig of
           CancelledError \<Rightarrow> finally_close env Returned (emit [Log ERROR Cancelled_error] g, c)
         | Exc e \<Rightarrow>
             finally_close env Returned (emit [Log EXCEPTION (Error_in_consumption_loop e)] g, c)
         | GeneratorExit \<Rightarrow> finally_close env (Raised GeneratorExit) (g, c)))"

text \<open>
  What happens to a live subscription, one thing at a time: the broker delivers the
  bytes of a message, the caller asks for the next message, or an exception is raised in
  the loop. A generator that has ended ignores all of them.
\<close>

datatype action = Deliver bytes | Pull | Raise signal

definition step ::
  "'m consumer_env \<Rightarrow> action \<Rightarrow> gateway \<times> 'm subscription \<Rightarrow> gateway \<times> 'm subscription" where
  "step env a gc =
     (if outcome (snd gc) \<noteq> Running then gc
      else case a of
             Deliver b \<Rightarrow> on_message env b gc
           | Pull \<Rightarrow> pull gc
           | Raise sig \<Rightarrow> raise_in_loop env sig gc)"

definition consume_messages ::
  "'m consumer_env \<Rightarrow> string \<Rightarrow> action list \<Rightarrow> gateway \<Rightarrow> gateway \<times> 'm subscription" where
  "consume_messages env room sched g = fold (step env) sched (open_consumer env room g)"

text \<open>The bytes delivered in a schedule, and the messages a list of bytes decodes to.\<close>

fun deliveries :: "action list \<Rightarrow> bytes list" where
  "deliveries [] = []"
| "deliveries (Deliver b # as) = b # deliveries as"
| "deliveries (a # as) = deliveries as"

fun decoded :: "'m consumer_env \<Rightarrow> bytes list \<Rightarrow> 'm list" where
  "decoded env [] = []"
| "decoded env (b # bs) =
     (case decode env b of Inl e \<Rightarrow> decoded env bs | Inr m \<Rightarrow> m # decoded env bs)"

fun is_raise :: "action \<Rightarrow> bool" where
  "is_raise (Raise sig) = True"
| "is_raise a = False"

text \<open>The first exception raised in the loop in a schedule, if there is one.\<close>

fun first_raise :: "action list \<Rightarrow> signal option" where
  "first_raise [] = None"
| "first_raise (Raise sig # as) = Some sig"
| "first_raise (a # as) = first_raise as"

text \<open>
  A healthy consumer whose messages are strings; the decoder rejects the empty byte
  string.
\<close>

definition decode_nonempty :: "bytes \<Rightarrow> exn + string" where
  "decode_nonempty b = (if b = [] then Inl (OtherException ''DecodeError'') else Inr b)"

definition healthy :: "string consumer_env" where
  "healthy = \<lparr>new_raises = None, start_raises = None, subscribe_raises = None,
              close_raises = None, decode = decode_nonempty\<rparr>"

text \<open>A consumer whose \<open>close\<close> raises an \<open>Exception\<close>.\<close>

definition close_fails :: "string consumer_env" where
  "close_fails = healthy\<lparr>close_raises := Some (Exc (OtherException ''close failed''))\<rparr>"

text \<open>A consumer whose \<open>start\<close> is refused.\<close>

definition start_fails :: "string consumer_env" where
  "start_fails = healthy\<lparr>start_raises := Some ConnectionRefusedError\<rparr>"

section \<open>The identity-provider admin client (auth/KeycloakAdmin.py)\<close>

subsection \<open>\<open>_make_request_with_retry\<close>\<close>

text \<open>
  What the body of the \<open>try\<close> raises at one attempt: an
  \<open>aiohttp.ClientResponseError\<close> with its HTTP status, an
  \<open>aiohttp.ClientConnectionError\<close>, another \<open>aiohttp.ClientError\<close>, or an exception
  that is no \<open>ClientError\<close> at all.
\<close>

datatype http_exn =
    ClientResponseError nat
  | ClientConnectionError
  | OtherClientError
  | NotClientError string

datatype 'r attempt = Responds 'r | Raises http_exn

datatype error_code =
    AUTH_SERVER_UNAVAILABLE | AUTH_TOKEN_EXPIRED | USER_NOT_FOUND | UNEXPECTED_ERROR

text \<open>
  How the call ends: it returns the response, raises \<open>BusinessException\<close> with an error
  code, raises the \<open>TypeError\<close> of an \<open>except\<close> clause that lists something that is not
  an exception class, or lets an exception through that no clause handles.
\<close>

datatype 'r request_result =
    Returns 'r
  | BusinessException error_code
  | TypeError
  | Unhandled http_exn

datatype admin_event = Admin_log level | Admin_sleep nat | Clear_token_cache

text \<open>
  \<^verbatim>\<open>
  except aiohttp.ClientResponseError as e:
      self.logger.error(...)
      if e.status in [401, 403]:
          if attempt < self.max_retries - 1:
              self.logger.warning(...); self._clear_token_cache(); continue
          else:
              self.logger.error(...); raise BusinessException(AUTH_TOKEN_EXPIRED)
      elif e.status == 404:
          self.logger.error(...)
          if 'user' in url.lower(): raise BusinessException(USER_NOT_FOUND)
          else: self.logger.error(...); raise BusinessException(UNEXPECTED_ERROR)
      elif e.status >= 500:
          self.logger.error(...); raise BusinessException(AUTH_SERVER_UNAVAILABLE)
      else:
          self.logger.error(...); raise BusinessException(UNEXPECTED_ERROR)
  \<close>
  for the statuses that end the call (all but 401 and 403 before the last attempt);
  \<open>user_url\<close> is \<open>'user' in url.lower()\<close>.
\<close>

definition response_error_final ::
  "bool \<Rightarrow> nat \<Rightarrow> admin_event list \<Rightarrow> 'r request_result \<times> admin_event list" where
  "response_error_final user_url status evs =
     (if status = 401 \<or> status = 403 then
        (BusinessException AUTH_TOKEN_EXPIRED, evs @ [Admin_log ERROR, Admin_log ERROR])
      else if status = 404 then
        (if user_url then (BusinessException USER_NOT_FOUND, evs @ [Admin_log ERROR, Admin_log ERROR])
         else (BusinessException UNEXPECTED_ERROR,
               evs @ [Admin_log ERROR, Admin_log ERROR, Admin_log ERROR]))
      else if status \<ge> 500 then
        (BusinessException AUTH_SERVER_UNAVAILABLE, evs @ [Admin_log ERROR, Admin_log ERROR])
      else (BusinessException UNEXPECTED_ERROR, evs @ [Admin_log ERROR, Admin_log ERROR]))"

text \<open>
  The loop \<open>for attempt in range(self.max_retries)\<close>, from \<open>attempt\<close> on, and the two
  statements after it.
  \<^verbatim>\<open>
      except (aiohttp.ClientConnectionError, aiohttp.ClientTimeout) as e:
          self.logger.warning(...)
          if attempt < self.max_retries - 1:
              await asyncio.sleep(self.retry_delay * (2 ** attempt))  # Exponential backoff
          else:
              break
      except aiohttp.ClientError as e:
          self.logger.error(...)
          raise BusinessException(AUTH_SERVER_UNAVAILABLE)
  self.logger.error(...)
  raise BusinessException(AUTH_SERVER_UNAVAILABLE)
  \<close>
  An exception that is no \<open>ClientResponseError\<close> is matched against the tuple of the
  second clause. Python first checks that every member of the tuple is a class derived
  from \<open>BaseException\<close>, and raises \<open>TypeError\<close> (catching classes that do not inherit
  from BaseException is not allowed) otherwise. Both names come from the library, which
  is not part of the repository: \<open>tuple_valid\<close> says whether both are exception classes.
  In aiohttp, \<open>ClientTimeout\<close> is the record of timeout settings
  (\<open>total\<close>, \<open>connect\<close>, \<open>sock_read\<close>, \<open>sock_connect\<close>), not an exception, so
  \<open>tuple_valid\<close> is \<open>False\<close> there. Inside the loop \<open>attempt < max_retries\<close>, so
  \<open>attempt < max_retries - 1\<close> is \<open>Suc attempt < max_retries\<close>.
\<close>

function request_loop ::
  "bool \<Rightarrow> nat \<Rightarrow> nat \<Rightarrow> bool \<Rightarrow> (nat \<Rightarrow> 'r attempt) \<Rightarrow> nat \<Rightarrow> admin_event list
     \<Rightarrow> 'r request_result \<times> admin_event list" where
  "request_loop tuple_valid max_retries retry_delay user_url http attempt evs =
     (if attempt \<ge> max_retries then
        (BusinessException AUTH_SERVER_UNAVAILABLE, evs @ [Admin_log ERROR])
      else
        (case http attempt of
           Responds r \<Rightarrow> (Returns r, evs)
         | Raises (ClientResponseError status) \<Rightarrow>
             (if (status = 401 \<or> status = 403) \<and> Suc attempt < max_retries then
                request_loop tuple_valid max_retries retry_delay user_url http (Suc attempt)
                  (evs @ [Admin_log ERROR, Admin_log WARNING, Clear_token_cache])
              else response_error_final user_url status evs)
         | Raises x \<Rightarrow>
             (if \<not> tuple_valid then (TypeError, evs)
              else if x = ClientConnectionError then
                (if Suc attempt < max_retries then
                   request_loop tuple_valid max_retries retry_delay user_url http (Suc attempt)
                     (evs @ [Admin_log WARNING, Admin_sleep (retry_delay * 2 ^ attempt)])
                 else
                   (BusinessException AUTH_SERVER_UNAVAILABLE,
                    evs @ [Admin_log WARNING, Admin_log ERROR]))
              else if x = OtherClientError then
                (BusinessException AUTH_SERVER_UNAVAILABLE, evs @ [Admin_log ERROR])
              else (Unhandled x, evs))))"
  by pat_completeness auto
termination
  by (relation "measure (\<lambda>(tv, mr, rd, u, http, attempt, evs). mr - attempt)") auto

definition make_request_with_retry ::
  "bool \<Rightarrow> nat \<Rightarrow> nat \<Rightarrow> bool \<Rightarrow> (nat \<Rightarrow> 'r attempt) \<Rightarrow> 'r request_result \<times> admin_event list" where
  "make_request_with_retry tuple_valid max_retries retry_delay user_url http =
     request_loop tuple_valid max_retries retry_delay user_url http 0 []"

text \<open>A server that cannot be reached: every attempt raises \<open>ClientConnectionError\<close>.\<close>

definition unreachable :: "nat \<Rightarrow> unit attempt" where
  "unreachable attempt = Raises ClientConnectionError"

fun admin_sleeps :: "admin_event list \<Rightarrow> nat list" where
  "admin_sleeps [] = []"
| "admin_sleeps (Admin_sleep n # evs) = n # admin_sleeps evs"
| "admin_sleeps (e # evs) = admin_sleeps evs"

section \<open>Properties\<close>

lemma strip_Nil [simp]: "strip [] = []"
  by (simp add: strip_def)

lemma strip_blank_iff: "strip s = [] \<longleftrightarrow> list_all isspace s"
proof
  assume "strip s = []"
  then have d: "dropWhile isspace (rev (dropWhile isspace s)) = []"
    by (simp add: strip_def)
  have "dropWhile isspace s = []"
  proof (rule ccontr)
    assume ne: "dropWhile isspace s \<noteq> []"
    then have "\<not> isspace (hd (dropWhile isspace s))"
      by (rule hd_dropWhile)
    moreover from d have "\<forall>x \<in> set (rev (dropWhile isspace s)). isspace x"
      by simp
    moreover from ne have "hd (dropWhile isspace s) \<in> set (dropWhile isspace s)"
      by simp
    ultimately show False by simp
  qed
  then show "list_all isspace s"
    by (simp add: list_all_iff)
next
  assume "list_all isspace s"
  then have "dropWhile isspace s = []"
    by (simp add: list_all_iff)
  then show "strip s = []"
    by (simp add: strip_def del: dropWhile_eq_Nil_conv)
qed

lemma sleeps_append [simp]: "sleeps (xs @ ys) = sleeps xs @ sleeps ys"
  by (induction xs rule: sleeps.induct) simp_all

lemma create_calls_append [simp]: "create_calls (xs @ ys) = create_calls xs @ create_calls ys"
  by (simp add: create_calls_def)

text \<open>
  C1. Under a broker that refuses every connection, \<open>create_stream\<close> with
  \<open>retry = 10\<close> should call the broker ten times, five seconds apart, and then raise
  \<open>ConnectionRefusedError\<close>. The code calls the broker once, sleeps once, drops the
  coroutine of the second attempt and returns normally: evaluated here on the stream
  name \<open>chat\<close>.
\<close>

theorem create_stream_refused_single_attempt:
  "create_stream refusing ''chat'' 10 0 gateway0 =
     (Inr (),
      \<lparr>streams_status = Map.empty,
       trace = [Producer_create_stream ''chat'',
                Log ERROR (Connection_refused_retrying ''chat''),
                Sleep 5,
                Coroutine_never_awaited ''chat'' 10 1]\<rparr>)"
  by (simp add: create_stream_def refusing_def gateway0_def emit_def strip_def isspace_def)

text \<open>
  C7. For an empty or whitespace-only name (and \<open>count < retry\<close>, as at every call site
  and with the default arguments), \<open>create_stream\<close> makes no broker call, leaves the
  Registry and the history as they are, and returns normally.
\<close>

theorem create_stream_blank_skipped:
  assumes "strip room = []" and "count < retry"
  shows "create_stream broker room retry count s = (Inr (), s)"
  using assms by (simp add: create_stream_def)

theorem create_stream_blank_skipped_witness:
  "strip '' '' = [] \<and> (0::int) < 10 \<and>
   create_stream refusing '' '' 10 0 gateway0 = (Inr (), gateway0)"
proof -
  have b: "strip '' '' = []"
    by (simp add: strip_def isspace_def)
  have c: "(0::int) < 10" by simp
  from create_stream_blank_skipped [OF b c] b show ?thesis by simp
qed

lemma emit_simps [simp]:
  "trace (emit es s) = trace s @ es"
  "streams_status (emit es s) = streams_status s"
  by (simp_all add: emit_def)

lemma set_status_simps [simp]:
  "trace (set_status room v s) = trace s"
  "streams_status (set_status room v s) = (streams_status s)(room \<mapsto> v)"
  by (simp_all add: set_status_def)

lemma create_stream_status [simp]:
  "streams_status (snd (create_stream broker room retry count s)) = streams_status s"
  by (simp add: create_stream_def Let_def split: option.split exn.split)

lemma create_stream_trace:
  "\<exists>es. trace (snd (create_stream broker room retry count s)) = trace s @ es \<and>
        create_calls es =
          (if count < retry \<and> strip room \<noteq> [] then [Producer_create_stream room] else [])"
  by (simp add: create_stream_def Let_def create_calls_def split: option.split exn.split)

lemma init_step_status:
  "streams_status (snd (init_step broker room (f, s))) =
     (streams_status s)(room \<mapsto> outcome_ready (fst (create_stream broker room 10 0 s)))"
proof -
  obtain r s1 where c: "create_stream broker room 10 0 s = (r, s1)"
    by (cases "create_stream broker room 10 0 s")
  have "streams_status s1 = streams_status s"
    using create_stream_status [of broker room 10 0 s] c by simp
  then show ?thesis
    using c by (simp add: init_step_def outcome_ready_def split: sum.split exn.split)
qed

lemma init_step_trace:
  "\<exists>es. trace (snd (init_step broker room (f, s))) = trace s @ es \<and>
        create_calls es = (if strip room \<noteq> [] then [Producer_create_stream room] else [])"
proof -
  obtain es where es: "trace (snd (create_stream broker room 10 0 s)) = trace s @ es"
    "create_calls es = (if strip room \<noteq> [] then [Producer_create_stream room] else [])"
    using create_stream_trace [of broker room 10 0 s] by auto
  obtain r s1 where c: "create_stream broker room 10 0 s = (r, s1)"
    by (cases "create_stream broker room 10 0 s")
  with es have t: "trace s1 = trace s @ es" by simp
  show ?thesis
    using c t es(2)
    by (auto simp add: init_step_def create_calls_def split: sum.split exn.split)
qed


lemma length_create_outcomes [simp]: "length (create_outcomes broker channels fs) = length channels"
  by (induction channels arbitrary: fs) simp_all


lemma init_loop_trace:
  "\<exists>es. trace (snd (init_loop broker channels fs)) = trace (snd fs) @ es \<and>
        create_calls es = map Producer_create_stream (filter (\<lambda>r. strip r \<noteq> []) channels)"
proof (induction channels arbitrary: fs)
  case Nil
  then show ?case by (simp add: create_calls_def)
next
  case (Cons room rest)
  obtain f s where fs: "fs = (f, s)" by (cases fs)
  obtain es1 where e1: "trace (snd (init_step broker room (f, s))) = trace s @ es1"
    "create_calls es1 = (if strip room \<noteq> [] then [Producer_create_stream room] else [])"
    using init_step_trace by blast
  obtain es2 where e2:
    "trace (snd (init_loop broker rest (init_step broker room (f, s)))) =
       trace (snd (init_step broker room (f, s))) @ es2"
    "create_calls es2 = map Producer_create_stream (filter (\<lambda>r. strip r \<noteq> []) rest)"
    using Cons.IH by blast
  have "trace (snd (init_loop broker (room # rest) fs)) = trace (snd fs) @ (es1 @ es2)"
    using e1 e2 fs by simp
  moreover have "create_calls (es1 @ es2) =
      map Producer_create_stream (filter (\<lambda>r. strip r \<noteq> []) (room # rest))"
    using e1 e2 by simp
  ultimately show ?case by blast
qed


lemma create_stream_blank:
  "strip room = [] \<Longrightarrow> count < retry \<Longrightarrow> create_stream broker room retry count s = (Inr (), s)"
  by (simp add: create_stream_def)

lemma init_streams_fst [simp]: "fst (init_streams broker channels s) = channels"
  by (simp add: init_streams_def Let_def split: prod.split)

lemma init_loop_Nil_channels: "channels = [] \<Longrightarrow> init_loop broker channels fs = fs"
  by simp

lemma init_streams_status:
  "streams_status (snd (init_streams broker channels s)) =
     streams_status (snd (init_loop broker channels ([], s)))"
  by (cases channels) (simp_all add: init_streams_def Let_def split: prod.split)

lemma init_streams_trace:
  "\<exists>es. trace (snd (init_streams broker channels s)) = trace s @ es \<and>
        create_calls es = map Producer_create_stream (filter (\<lambda>r. strip r \<noteq> []) channels)"
proof -
  obtain es where es: "trace (snd (init_loop broker channels ([], s))) = trace s @ es"
    "create_calls es = map Producer_create_stream (filter (\<lambda>r. strip r \<noteq> []) channels)"
    using init_loop_trace [of broker channels "([], s)"] by auto
  obtain failed s1 where l: "init_loop broker channels ([], s) = (failed, s1)"
    by (cases "init_loop broker channels ([], s)")
  with es have t: "trace s1 = trace s @ es" by simp
  show ?thesis
  proof (cases "channels = []")
    case True
    then show ?thesis
      by (simp add: init_streams_def create_calls_def)
  next
    case False
    then show ?thesis
      using l t es(2)
      by (auto simp add: init_streams_def Let_def create_calls_def)
  qed
qed

lemma init_step_blank_ready:
  assumes "strip room = []"
  shows "streams_status (snd (init_step broker room fs)) room = Some True"
proof -
  obtain f s where fs: "fs = (f, s)" by (cases fs)
  have "create_stream broker room 10 0 s = (Inr (), s)"
    using assms by (simp add: create_stream_blank)
  then show ?thesis
    by (simp add: fs init_step_status outcome_ready_def)
qed

lemma init_step_keeps_ready:
  assumes "strip name = []" and "streams_status (snd fs) name = Some True"
  shows "streams_status (snd (init_step broker room fs)) name = Some True"
proof (cases "room = name")
  case True
  then show ?thesis using assms(1) by (simp add: init_step_blank_ready)
next
  case False
  obtain f s where fs: "fs = (f, s)" by (cases fs)
  show ?thesis using False assms(2) by (simp add: fs init_step_status)
qed

lemma init_loop_blank_ready:
  assumes "strip name = []"
    and "name \<in> set channels \<or> streams_status (snd fs) name = Some True"
  shows "streams_status (snd (init_loop broker channels fs)) name = Some True"
  using assms(2)
proof (induction channels arbitrary: fs)
  case Nil
  then show ?case by simp
next
  case (Cons room rest)
  from Cons.prems consider "name = room" | "name \<in> set rest"
    | "streams_status (snd fs) name = Some True"
    by auto
  then have "name \<in> set rest \<or> streams_status (snd (init_step broker room fs)) name = Some True"
  proof cases
    case 1
    then show ?thesis using assms(1) init_step_blank_ready [of room broker fs] by simp
  next
    case 2
    then show ?thesis by simp
  next
    case 3
    then show ?thesis using assms(1) init_step_keeps_ready [of name fs broker room] by simp
  qed
  then show ?case
    using Cons.IH [of "init_step broker room fs"] by simp
qed




text \<open>
  C10. A blank name in the list given to \<open>_init_streams\<close> ends in the Registry as
  \<open>True\<close>, and no broker call for it is among the events of the call.
\<close>

theorem init_streams_blank_name_marked_ready:
  assumes "room \<in> set channels" and "strip room = []"
  shows "streams_status (snd (init_streams broker channels s)) room = Some True \<and>
         (\<exists>es. trace (snd (init_streams broker channels s)) = trace s @ es \<and>
               Producer_create_stream room \<notin> set es)"
proof -
  have a: "streams_status (snd (init_streams broker channels s)) room = Some True"
    using assms by (simp add: init_streams_status init_loop_blank_ready)
  obtain es where es: "trace (snd (init_streams broker channels s)) = trace s @ es"
    "create_calls es = map Producer_create_stream (filter (\<lambda>r. strip r \<noteq> []) channels)"
    using init_streams_trace by blast
  have "Producer_create_stream room \<notin> set es"
  proof
    assume "Producer_create_stream room \<in> set es"
    then have "Producer_create_stream room \<in> set (create_calls es)"
      by (simp add: create_calls_def)
    with es(2) have "strip room \<noteq> []" by auto
    with assms(2) show False by simp
  qed
  with a es(1) show ?thesis by blast
qed


theorem init_streams_blank_name_marked_ready_witness:
  "'' '' \<in> set [''a'', '' ''] \<and> strip '' '' = [] \<and>
   streams_status (snd (init_streams refusing [''a'', '' ''] gateway0)) '' '' = Some True \<and>
   trace (snd (init_streams refusing [''a'', '' ''] gateway0)) =
     [Producer_create_stream ''a'', Log ERROR (Connection_refused_retrying ''a''), Sleep 5,
      Coroutine_never_awaited ''a'' 10 1, Log INFO (Stream_created ''a''),
      Log INFO (Stream_created '' ''), Log INFO (Initialized_streams [''a'', '' ''])]"
proof -
  have m: "'' '' \<in> set [''a'', '' '']" by simp
  have b: "strip '' '' = []" by (simp add: strip_def isspace_def)
  have t: "trace (snd (init_streams refusing [''a'', '' ''] gateway0)) =
     [Producer_create_stream ''a'', Log ERROR (Connection_refused_retrying ''a''), Sleep 5,
      Coroutine_never_awaited ''a'' 10 1, Log INFO (Stream_created ''a''),
      Log INFO (Stream_created '' ''), Log INFO (Initialized_streams [''a'', '' ''])]"
    by (simp add: init_streams_def init_step_def create_stream_def refusing_def gateway0_def
        emit_def set_status_def strip_def isspace_def)
  from init_streams_blank_name_marked_ready [OF m b, of refusing gateway0] m b t
  show ?thesis by simp
qed







text \<open>
  C8. A failure of the encoder, and a failure of the broker's \<open>send\<close>, other than
  \<open>StreamDoesNotExist\<close>, is logged with \<open>logger.exception\<close> and raised to the caller as
  it is; nothing else happens (no recovery call, the Registry as it was).
\<close>

theorem send_to_stream_other_errors_logged_and_reraised:
  assumes "e \<noteq> StreamDoesNotExist"
  shows "(encode message = Inl e \<longrightarrow>
            send_to_stream encode cbroker sbroker room message s =
              (Inl e, emit [Log DEBUG (Sending_message_to_stream room),
                            Log EXCEPTION (Error_sending_to_stream e)] s)) \<and>
         (encode message = Inr b \<and>
          sbroker (trace s @ [Log DEBUG (Sending_message_to_stream room)]) room b = Some e \<longrightarrow>
            send_to_stream encode cbroker sbroker room message s =
              (Inl e, emit [Log DEBUG (Sending_message_to_stream room), Producer_send room b,
                            Log EXCEPTION (Error_sending_to_stream e)] s))"
  using assms by (simp add: send_to_stream_def send_handlers_def Let_def emit_def)

theorem send_to_stream_other_errors_logged_and_reraised_witness:
  "OtherException ''not serializable'' \<noteq> StreamDoesNotExist \<and>
   OtherException ''broker down'' \<noteq> StreamDoesNotExist \<and>
   send_to_stream encode_fails accepting missing ''chat'' ''hi'' registered =
     (Inl (OtherException ''not serializable''),
      \<lparr>streams_status = [''chat'' \<mapsto> True],
       trace = [Log DEBUG (Sending_message_to_stream ''chat''),
                Log EXCEPTION (Error_sending_to_stream (OtherException ''not serializable''))]\<rparr>) \<and>
   send_to_stream encode_ok accepting send_fails ''chat'' ''hi'' registered =
     (Inl (OtherException ''broker down''),
      \<lparr>streams_status = [''chat'' \<mapsto> True],
       trace = [Log DEBUG (Sending_message_to_stream ''chat''), Producer_send ''chat'' ''hi'',
                Log EXCEPTION (Error_sending_to_stream (OtherException ''broker down''))]\<rparr>)"
proof -
  have a: "OtherException ''not serializable'' \<noteq> StreamDoesNotExist" by simp
  have b: "OtherException ''broker down'' \<noteq> StreamDoesNotExist" by simp
  have ea: "encode_fails ''hi'' = Inl (OtherException ''not serializable'')"
    by (simp add: encode_fails_def)
  have eb: "encode_ok ''hi'' = Inr ''hi'' \<and>
            send_fails (trace registered @ [Log DEBUG (Sending_message_to_stream ''chat'')])
              ''chat'' ''hi'' = Some (OtherException ''broker down'')"
    by (simp add: encode_ok_def send_fails_def)
  from send_to_stream_other_errors_logged_and_reraised
         [where encode = encode_fails and message = "''hi''" and cbroker = accepting
            and sbroker = missing and room = "''chat''" and s = registered, OF a] ea
  have 1: "send_to_stream encode_fails accepting missing ''chat'' ''hi'' registered =
     (Inl (OtherException ''not serializable''),
      emit [Log DEBUG (Sending_message_to_stream ''chat''),
            Log EXCEPTION (Error_sending_to_stream (OtherException ''not serializable''))]
        registered)"
    by blast
  from send_to_stream_other_errors_logged_and_reraised
         [where encode = encode_ok and message = "''hi''" and cbroker = accepting
            and sbroker = send_fails and room = "''chat''" and s = registered
            and b = "''hi''", OF b] eb
  have 2: "send_to_stream encode_ok accepting send_fails ''chat'' ''hi'' registered =
     (Inl (OtherException ''broker down''),
      emit [Log DEBUG (Sending_message_to_stream ''chat''), Producer_send ''chat'' ''hi'',
            Log EXCEPTION (Error_sending_to_stream (OtherException ''broker down''))]
        registered)"
    by blast
  from 1 2 show ?thesis
    by (simp add: emit_def registered_def)
qed

lemma finally_close_facts:
  assumes "finally_close env ending (g, c) = (g', c')"
  shows "streams_status g' = streams_status g"
    and "\<exists>es. trace g' = trace g @ es \<and>
              count_list es Consumer_close = (if consumer c then 1 else 0)"
    and "consumer c' = consumer c"
    and "ending \<noteq> Running \<Longrightarrow> outcome c' \<noteq> Running"
    and "items c' = items c" and "yielded c' = yielded c"
  using assms
  by (auto simp add: finally_close_def Let_def emit_def split: if_splits option.splits signal.splits)

lemma on_message_facts:
  assumes "on_message env b (g, c) = (g', c')"
  shows "streams_status g' = streams_status g"
    and "\<exists>es. trace g' = trace g @ es \<and> count_list es Consumer_close = 0"
    and "consumer c' = consumer c"
    and "outcome c' = outcome c"
  using assms
  by (auto simp add: on_message_def put_def emit_def split: sum.splits if_splits)

lemma pull_facts:
  assumes "pull (g, c) = (g', c')"
  shows "g' = g"
    and "consumer c' = consumer c"
    and "outcome c' = outcome c"
  using assms
  by (auto simp add: pull_def wake_putter_def split: list.splits if_splits)

lemma raise_in_loop_facts:
  assumes "raise_in_loop env sig (g, c) = (g', c')"
  shows "streams_status g' = streams_status g"
    and "\<exists>es. trace g' = trace g @ es \<and>
              count_list es Consumer_close = (if consumer c then 1 else 0)"
    and "consumer c' = consumer c"
    and "outcome c' \<noteq> Running"
proof -
  obtain g1 ending where fc: "finally_close env ending (g1, c) = (g', c')"
    and g1: "streams_status g1 = streams_status g" "\<exists>es. trace g1 = trace g @ es \<and> count_list es Consumer_close = 0"
    and en: "ending \<noteq> Running"
    using assms by (cases sig) (auto simp add: raise_in_loop_def emit_def)
  from finally_close_facts [OF fc] g1 en
  show "streams_status g' = streams_status g" "consumer c' = consumer c" "outcome c' \<noteq> Running"
    by auto
  from finally_close_facts(2) [OF fc] g1(2)
  show "\<exists>es. trace g' = trace g @ es \<and>
              count_list es Consumer_close = (if consumer c then 1 else 0)"
    by auto
qed

lemma step_facts:
  assumes "step env a (g, c) = (g', c')"
  shows "streams_status g' = streams_status g \<and>
         (\<exists>es. trace g' = trace g @ es \<and>
              count_list es Consumer_close =
                (if outcome c = Running \<and> outcome c' \<noteq> Running \<and> consumer c then 1 else 0)) \<and>
         consumer c' = consumer c \<and>
         (outcome c \<noteq> Running \<longrightarrow> (g', c') = (g, c))"
proof (cases "outcome c = Running")
  case False
  then show ?thesis using assms by (simp add: step_def)
next
  case True
  show ?thesis
  proof (cases a)
    case (Deliver b)
    with True assms have "on_message env b (g, c) = (g', c')" by (simp add: step_def)
    from on_message_facts [OF this] True show ?thesis by simp
  next
    case Pull
    with True assms have "pull (g, c) = (g', c')" by (simp add: step_def)
    from pull_facts [OF this] True show ?thesis by simp
  next
    case (Raise sig)
    with True assms have "raise_in_loop env sig (g, c) = (g', c')" by (simp add: step_def)
    from raise_in_loop_facts [OF this] True show ?thesis by simp
  qed
qed

lemma fold_step_facts:
  assumes "fold (step env) sched (g, c) = (g', c')"
  shows "streams_status g' = streams_status g \<and>
         (\<exists>es. trace g' = trace g @ es \<and>
              count_list es Consumer_close =
                (if outcome c = Running \<and> outcome c' \<noteq> Running \<and> consumer c then 1 else 0)) \<and>
         consumer c' = consumer c"
  using assms
proof (induction sched arbitrary: g c)
  case Nil
  then show ?case by simp
next
  case (Cons a sched)
  obtain g1 c1 where s1: "step env a (g, c) = (g1, c1)"
    by (cases "step env a (g, c)")
  with Cons.prems have f: "fold (step env) sched (g1, c1) = (g', c')" by simp
  note A = step_facts [OF s1]
  note B = Cons.IH [OF f]
  from A obtain es1 where es1: "trace g1 = trace g @ es1"
    "count_list es1 Consumer_close =
       (if outcome c = Running \<and> outcome c1 \<noteq> Running \<and> consumer c then 1 else 0)"
    by blast
  from B obtain es2 where es2: "trace g' = trace g1 @ es2"
    "count_list es2 Consumer_close =
       (if outcome c1 = Running \<and> outcome c' \<noteq> Running \<and> consumer c1 then 1 else 0)"
    by blast
  have stay: "outcome c1 \<noteq> Running \<Longrightarrow> outcome c' = outcome c1"
  proof -
    assume n: "outcome c1 \<noteq> Running"
    have "fold (step env) sched (g1, c1) = (g1, c1)"
      by (induction sched) (simp_all add: step_def n)
    with f show ?thesis by simp
  qed
  have run: "outcome c \<noteq> Running \<Longrightarrow> outcome c1 = outcome c"
    using A by auto
  have "trace g' = trace g @ (es1 @ es2)" using es1 es2 by simp
  moreover have "count_list (es1 @ es2) Consumer_close =
      (if outcome c = Running \<and> outcome c' \<noteq> Running \<and> consumer c then 1 else 0)"
    using es1(2) es2(2) A stay run by (auto split: if_splits)
  ultimately have "\<exists>es. trace g' = trace g @ es \<and>
              count_list es Consumer_close =
                (if outcome c = Running \<and> outcome c' \<noteq> Running \<and> consumer c then 1 else 0)"
    by blast
  with A B show ?case by simp
qed

lemma open_consumer_facts:
  assumes "open_consumer env room g = (g', c')"
  shows "streams_status g' = streams_status g \<and>
         (\<exists>es. trace g' = trace g @ es \<and>
              count_list es Consumer_close =
                (if outcome c' \<noteq> Running \<and> new_raises env = None then 1 else 0)) \<and>
         consumer c' = (new_raises env = None)"
  using assms
  by (auto simp add: open_consumer_def opening_failed_def finally_close_def Let_def emit_def
      split: option.splits signal.splits if_splits)


lemma fold_step_ended:
  "outcome (snd gc) \<noteq> Running \<Longrightarrow> fold (step env) sched gc = gc"
  by (induction sched) (simp_all add: step_def)

lemma consume_messages_closes:
  assumes "consume_messages env room sched g = (g', c')"
  shows "streams_status g' = streams_status g \<and>
         (\<exists>es. trace g' = trace g @ es \<and>
              count_list es Consumer_close =
                (if outcome c' \<noteq> Running \<and> new_raises env = None then 1 else 0))"
proof -
  obtain g1 c1 where o: "open_consumer env room g = (g1, c1)"
    by (cases "open_consumer env room g")
  with assms have f: "fold (step env) sched (g1, c1) = (g', c')"
    by (simp add: consume_messages_def)
  note A = open_consumer_facts [OF o]
  note B = fold_step_facts [OF f]
  from A obtain es1 where es1: "trace g1 = trace g @ es1"
    "count_list es1 Consumer_close =
       (if outcome c1 \<noteq> Running \<and> new_raises env = None then 1 else 0)"
    by blast
  from B obtain es2 where es2: "trace g' = trace g1 @ es2"
    "count_list es2 Consumer_close =
       (if outcome c1 = Running \<and> outcome c' \<noteq> Running \<and> consumer c1 then 1 else 0)"
    by blast
  have stay: "outcome c1 \<noteq> Running \<Longrightarrow> outcome c' = outcome c1"
    using fold_step_ended [of "(g1, c1)" env sched] f by simp
  have "trace g' = trace g @ (es1 @ es2)" using es1 es2 by simp
  moreover have "count_list (es1 @ es2) Consumer_close =
      (if outcome c' \<noteq> Running \<and> new_raises env = None then 1 else 0)"
    using es1(2) es2(2) A stay by (auto split: if_splits)
  ultimately show ?thesis using A B by auto
qed

lemma step_close_failure_irrelevant:
  "snd (step (env\<lparr>close_raises := Some (Exc e)\<rparr>) a (g1, c)) =
   snd (step (env\<lparr>close_raises := None\<rparr>) a (g2, c))"
  by (cases a)
     (simp_all add: step_def on_message_def pull_def raise_in_loop_def finally_close_def Let_def
        split: sum.split list.split signal.split)

lemma fold_close_failure_irrelevant:
  "snd (fold (step (env\<lparr>close_raises := Some (Exc e)\<rparr>)) sched (g1, c)) =
   snd (fold (step (env\<lparr>close_raises := None\<rparr>)) sched (g2, c))"
proof (induction sched arbitrary: g1 g2 c)
  case Nil
  then show ?case by simp
next
  case (Cons a sched)
  obtain h1 d1 where 1: "step (env\<lparr>close_raises := Some (Exc e)\<rparr>) a (g1, c) = (h1, d1)"
    by (cases "step (env\<lparr>close_raises := Some (Exc e)\<rparr>) a (g1, c)")
  obtain h2 d2 where 2: "step (env\<lparr>close_raises := None\<rparr>) a (g2, c) = (h2, d2)"
    by (cases "step (env\<lparr>close_raises := None\<rparr>) a (g2, c)")
  from step_close_failure_irrelevant [where env = env and e = e and a = a and ?g1.0 = g1
         and c = c and ?g2.0 = g2] 1 2
  have "d1 = d2" by simp
  with 1 2 Cons.IH [where ?g1.0 = h1 and c = d1 and ?g2.0 = h2] show ?case by simp
qed

lemma open_close_failure_irrelevant:
  "snd (open_consumer (env\<lparr>close_raises := Some (Exc e)\<rparr>) room g) =
   snd (open_consumer (env\<lparr>close_raises := None\<rparr>) room g)"
  by (simp add: open_consumer_def opening_failed_def finally_close_def Let_def
      split: option.split)

lemma consume_close_failure_irrelevant:
  "snd (consume_messages (env\<lparr>close_raises := Some (Exc e)\<rparr>) room sched g) =
   snd (consume_messages (env\<lparr>close_raises := None\<rparr>) room sched g)"
proof -
  obtain h1 d1 where 1: "open_consumer (env\<lparr>close_raises := Some (Exc e)\<rparr>) room g = (h1, d1)"
    by (cases "open_consumer (env\<lparr>close_raises := Some (Exc e)\<rparr>) room g")
  obtain h2 d2 where 2: "open_consumer (env\<lparr>close_raises := None\<rparr>) room g = (h2, d2)"
    by (cases "open_consumer (env\<lparr>close_raises := None\<rparr>) room g")
  from open_close_failure_irrelevant [where env = env and e = e and room = room and g = g] 1 2
  have "d1 = d2" by simp
  with 1 2 fold_close_failure_irrelevant [where env = env and e = e and sched = sched
         and ?g1.0 = h1 and c = d1 and ?g2.0 = h2]
  show ?thesis by (simp add: consume_messages_def)
qed

lemma step_close_failure_logged:
  assumes "close_raises env = Some (Exc e)"
    and "outcome c \<noteq> Running \<and> consumer c \<longrightarrow>
           Log EXCEPTION (Error_closing_consumer e) \<in> set (trace g)"
    and "step env a (g, c) = (g', c')"
  shows "outcome c' \<noteq> Running \<and> consumer c' \<longrightarrow>
           Log EXCEPTION (Error_closing_consumer e) \<in> set (trace g')"
  using assms
  by (cases a)
     (auto simp add: step_def on_message_def pull_def raise_in_loop_def finally_close_def
        put_def wake_putter_def Let_def emit_def
        split: sum.splits list.splits signal.splits if_splits)

lemma fold_close_failure_logged:
  assumes "close_raises env = Some (Exc e)"
    and "outcome c \<noteq> Running \<and> consumer c \<longrightarrow>
           Log EXCEPTION (Error_closing_consumer e) \<in> set (trace g)"
    and "fold (step env) sched (g, c) = (g', c')"
  shows "outcome c' \<noteq> Running \<and> consumer c' \<longrightarrow>
           Log EXCEPTION (Error_closing_consumer e) \<in> set (trace g')"
  using assms(2,3)
proof (induction sched arbitrary: g c)
  case Nil
  then show ?case by simp
next
  case (Cons a sched)
  obtain g1 c1 where s1: "step env a (g, c) = (g1, c1)"
    by (cases "step env a (g, c)")
  with Cons.prems(2) have f: "fold (step env) sched (g1, c1) = (g', c')" by simp
  from step_close_failure_logged [OF assms(1) Cons.prems(1) s1]
  show ?case by (rule Cons.IH [OF _ f])
qed

lemma open_close_failure_logged:
  assumes "close_raises env = Some (Exc e)"
    and "open_consumer env room g = (g', c')"
  shows "outcome c' \<noteq> Running \<and> consumer c' \<longrightarrow>
           Log EXCEPTION (Error_closing_consumer e) \<in> set (trace g')"
  using assms
  by (auto simp add: open_consumer_def opening_failed_def finally_close_def Let_def emit_def
      split: option.splits if_splits)


lemma step_queue_unbounded:
  assumes "maxsize c = 0" and "putters c = []" and "step env a (g, c) = (g', c')"
  shows "maxsize c' = 0 \<and> putters c' = []"
  using assms
  by (cases a)
     (auto simp add: step_def on_message_def pull_def raise_in_loop_def finally_close_def
        put_def full_def wake_putter_def Let_def
        split: sum.splits list.splits signal.splits if_splits option.splits)

lemma fold_queue_unbounded:
  assumes "maxsize c = 0" and "putters c = []" and "fold (step env) sched (g, c) = (g', c')"
  shows "maxsize c' = 0 \<and> putters c' = []"
  using assms
proof (induction sched arbitrary: g c)
  case Nil
  then show ?case by simp
next
  case (Cons a sched)
  obtain g1 c1 where s1: "step env a (g, c) = (g1, c1)"
    by (cases "step env a (g, c)")
  with Cons.prems(3) have f: "fold (step env) sched (g1, c1) = (g', c')" by simp
  from step_queue_unbounded [OF Cons.prems(1,2) s1]
  show ?case using Cons.IH [OF _ _ f] by simp
qed

lemma open_queue_unbounded:
  assumes "open_consumer env room g = (g', c')"
  shows "maxsize c' = 0 \<and> putters c' = [] \<and> items c' = [] \<and> yielded c' = []"
  using assms
  by (auto simp add: open_consumer_def opening_failed_def finally_close_def Let_def
      split: option.splits signal.splits if_splits)

lemma open_consumer_ok:
  assumes "new_raises env = None" and "start_raises env = None" and "subscribe_raises env = None"
  shows "open_consumer env room g =
           (emit [Consumer_new, Consumer_start, Consumer_subscribe room] g,
            \<lparr>consumer = True, maxsize = 0, items = [], putters = [], yielded = [],
             outcome = Running\<rparr>)"
  using assms by (simp add: open_consumer_def Let_def emit_def)

lemma step_order:
  assumes "outcome c = Running" and "maxsize c = 0" and "putters c = []"
    and "\<not> is_raise a" and "step env a (g, c) = (g', c')"
  shows "outcome c' = Running \<and>
         yielded c' @ items c' = yielded c @ items c @ decoded env (deliveries [a]) \<and>
         (\<exists>es. trace g' = trace g @ es \<and> Consumer_close \<notin> set es)"
  using assms
  by (cases a)
     (auto simp add: step_def on_message_def pull_def put_def full_def wake_putter_def emit_def
        split: sum.splits list.splits)

lemma deliveries_Cons: "deliveries (a # as) = deliveries [a] @ deliveries as"
  by (cases a) simp_all

lemma decoded_append [simp]: "decoded env (xs @ ys) = decoded env xs @ decoded env ys"
  by (induction xs) (simp_all split: sum.split)

lemma fold_order:
  assumes "outcome c = Running" and "maxsize c = 0" and "putters c = []"
    and "\<not> list_ex is_raise sched" and "fold (step env) sched (g, c) = (g', c')"
  shows "outcome c' = Running \<and>
         yielded c' @ items c' = yielded c @ items c @ decoded env (deliveries sched) \<and>
         (\<exists>es. trace g' = trace g @ es \<and> Consumer_close \<notin> set es)"
  using assms
proof (induction sched arbitrary: g c)
  case Nil
  then show ?case by simp
next
  case (Cons a sched)
  obtain g1 c1 where s1: "step env a (g, c) = (g1, c1)"
    by (cases "step env a (g, c)")
  with Cons.prems(5) have f: "fold (step env) sched (g1, c1) = (g', c')" by simp
  from Cons.prems(4) have na: "\<not> is_raise a" and ns: "\<not> list_ex is_raise sched" by simp_all
  note A = step_order [OF Cons.prems(1,2,3) na s1]
  note Q = step_queue_unbounded [OF Cons.prems(2,3) s1]
  from A Q have B: "outcome c' = Running \<and>
         yielded c' @ items c' = yielded c1 @ items c1 @ decoded env (deliveries sched) \<and>
         (\<exists>es. trace g' = trace g1 @ es \<and> Consumer_close \<notin> set es)"
    using Cons.IH [OF _ _ _ ns f] by simp
  from A obtain es1 where es1: "trace g1 = trace g @ es1" "Consumer_close \<notin> set es1" by blast
  from B obtain es2 where es2: "trace g' = trace g1 @ es2" "Consumer_close \<notin> set es2" by blast
  have "trace g' = trace g @ (es1 @ es2) \<and> Consumer_close \<notin> set (es1 @ es2)"
    using es1 es2 by simp
  then have T: "\<exists>es. trace g' = trace g @ es \<and> Consumer_close \<notin> set es" by blast
  have "yielded c' @ items c' = yielded c @ items c @ decoded env (deliveries (a # sched))"
    using A B by (subst deliveries_Cons) simp
  with B T show ?case by simp
qed

lemma fold_drain:
  assumes "outcome c = Running" and "putters c = []" and "length (items c) \<le> k"
  shows "fold (step env) (replicate k Pull) (g, c) = (g, c\<lparr>items := [], yielded := yielded c @ items c\<rparr>)"
  using assms
proof (induction k arbitrary: c)
  case 0
  then show ?case by simp
next
  case (Suc k)
  show ?case
  proof (cases "items c")
    case Nil
    then have "step env Pull (g, c) = (g, c)"
      using Suc.prems(1) by (simp add: step_def pull_def)
    then show ?thesis
      using Suc.IH [OF Suc.prems(1,2)] Nil by simp
  next
    case (Cons m rest)
    let ?c1 = "c\<lparr>items := rest, yielded := yielded c @ [m]\<rparr>"
    have s: "step env Pull (g, c) = (g, ?c1)"
      using Suc.prems(1,2) Cons by (simp add: step_def pull_def wake_putter_def)
    have "fold (step env) (replicate k Pull) (g, ?c1) =
            (g, ?c1\<lparr>items := [], yielded := yielded ?c1 @ items ?c1\<rparr>)"
      using Suc.prems Cons by (intro Suc.IH) simp_all
    with s Cons show ?thesis by simp
  qed
qed

lemma fold_parse_error_logged:
  assumes "outcome c = Running" and "maxsize c = 0" and "putters c = []"
    and "\<not> list_ex is_raise sched" and "fold (step env) sched (g, c) = (g', c')"
    and "b \<in> set (deliveries sched)" and "decode env b = Inl e"
  shows "Log EXCEPTION (Error_parsing_message e) \<in> set (trace g')"
  using assms(1,2,3,4,5,6)
proof (induction sched arbitrary: g c)
  case Nil
  then show ?case by simp
next
  case (Cons a sched)
  obtain g1 c1 where s1: "step env a (g, c) = (g1, c1)"
    by (cases "step env a (g, c)")
  with Cons.prems(5) have f: "fold (step env) sched (g1, c1) = (g', c')" by simp
  from Cons.prems(4) have na: "\<not> is_raise a" and ns: "\<not> list_ex is_raise sched" by simp_all
  note A = step_order [OF Cons.prems(1,2,3) na s1]
  note Q = step_queue_unbounded [OF Cons.prems(2,3) s1]
  from Cons.prems(6) consider "a = Deliver b" | "b \<in> set (deliveries sched)"
    by (cases a) auto
  then show ?case
  proof cases
    case 1
    then have "Log EXCEPTION (Error_parsing_message e) \<in> set (trace g1)"
      using s1 Cons.prems(1) assms(7) by (auto simp add: step_def on_message_def emit_def)
    moreover from fold_step_facts [OF f] obtain es where "trace g' = trace g1 @ es" by blast
    ultimately show ?thesis by simp
  next
    case 2
    from A Q show ?thesis
      using Cons.IH [OF _ _ _ ns f 2] by simp
  qed
qed

lemma decoded_all_good:
  "map (decode env) ws = map Inr ms \<Longrightarrow> decoded env ws = ms"
  by (induction ws arbitrary: ms) auto

lemma fold_deliver_only:
  assumes "outcome c = Running" and "maxsize c = 0"
  shows "items (snd (fold (step env) (map Deliver bs) (g, c))) = items c @ decoded env bs \<and>
         outcome (snd (fold (step env) (map Deliver bs) (g, c))) = Running \<and>
         maxsize (snd (fold (step env) (map Deliver bs) (g, c))) = 0"
  using assms
proof (induction bs arbitrary: g c)
  case Nil
  then show ?case by simp
next
  case (Cons b bs)
  show ?case
  proof (cases "decode env b")
    case (Inl e)
    then have "step env (Deliver b) (g, c) = (emit [Log EXCEPTION (Error_parsing_message e)] g, c)"
      using Cons.prems by (simp add: step_def on_message_def)
    then show ?thesis using Cons.IH [OF Cons.prems] Inl by simp
  next
    case (Inr m)
    then have "step env (Deliver b) (g, c) = (g, c\<lparr>items := items c @ [m]\<rparr>)"
      using Cons.prems by (simp add: step_def on_message_def put_def full_def)
    then show ?thesis
      using Cons.IH [of "c\<lparr>items := items c @ [m]\<rparr>" g] Cons.prems Inr by simp
  qed
qed


text \<open>
  C2 (as amended). The queue of a subscription is created without a bound
  (\<open>maxsize = 0\<close>): it is never full, no \<open>put\<close> of the callback ever waits, and while the
  subscription is open every message that decodes is in the queue or has been yielded;
  none is dropped.
\<close>

theorem consume_messages_queue_unbounded:
  "maxsize (snd (consume_messages env room sched g)) = 0 \<and>
   \<not> full (snd (consume_messages env room sched g)) \<and>
   putters (snd (consume_messages env room sched g)) = [] \<and>
   (new_raises env = None \<and> start_raises env = None \<and> subscribe_raises env = None \<and>
    \<not> list_ex is_raise sched \<longrightarrow>
      yielded (snd (consume_messages env room sched g)) @
      items (snd (consume_messages env room sched g)) = decoded env (deliveries sched))"
proof -
  obtain g1 c1 where o: "open_consumer env room g = (g1, c1)"
    by (cases "open_consumer env room g")
  obtain g' c' where f: "fold (step env) sched (g1, c1) = (g', c')"
    by (cases "fold (step env) sched (g1, c1)")
  have r: "consume_messages env room sched g = (g', c')"
    using o f by (simp add: consume_messages_def)
  note O = open_queue_unbounded [OF o]
  from O have Q: "maxsize c' = 0 \<and> putters c' = []"
    using fold_queue_unbounded [OF _ _ f] by simp
  have "yielded c' @ items c' = decoded env (deliveries sched)"
    if ok: "new_raises env = None \<and> start_raises env = None \<and> subscribe_raises env = None \<and>
            \<not> list_ex is_raise sched"
  proof -
    from ok o have "outcome c1 = Running"
      by (auto simp add: open_consumer_ok)
    with O ok show ?thesis
      using fold_order [OF _ _ _ _ f] by simp
  qed
  with Q r show ?thesis by (simp add: full_def)
qed

theorem consume_messages_queue_unbounded_witness:
  "new_raises healthy = None \<and> start_raises healthy = None \<and> subscribe_raises healthy = None \<and>
   \<not> list_ex is_raise [Deliver ''m1'', Deliver ''m2'', Pull, Deliver ''m3''] \<and>
   maxsize (snd (consume_messages healthy ''chat''
                   [Deliver ''m1'', Deliver ''m2'', Pull, Deliver ''m3''] gateway0)) = 0 \<and>
   yielded (snd (consume_messages healthy ''chat''
                   [Deliver ''m1'', Deliver ''m2'', Pull, Deliver ''m3''] gateway0)) @
   items (snd (consume_messages healthy ''chat''
                   [Deliver ''m1'', Deliver ''m2'', Pull, Deliver ''m3''] gateway0)) =
     [''m1'', ''m2'', ''m3'']"
proof -
  have h: "new_raises healthy = None \<and> start_raises healthy = None \<and>
           subscribe_raises healthy = None \<and>
           \<not> list_ex is_raise [Deliver ''m1'', Deliver ''m2'', Pull, Deliver ''m3'']"
    by (simp add: healthy_def)
  have d: "decoded healthy (deliveries [Deliver ''m1'', Deliver ''m2'', Pull, Deliver ''m3'']) =
             [''m1'', ''m2'', ''m3'']"
    by (simp add: healthy_def decode_nonempty_def)
  from consume_messages_queue_unbounded
         [of healthy "''chat''" "[Deliver ''m1'', Deliver ''m2'', Pull, Deliver ''m3'']" gateway0]
       h d
  show ?thesis by simp
qed

text \<open>
  C2 as stated fails: no number bounds the queue. With no pull, as many messages as the
  broker delivers are held in it, and it is not full.
\<close>

theorem consume_messages_queue_bound_counterexample:
  "\<not> (\<exists>B. \<forall>bs. length (items (snd (consume_messages healthy ''chat'' (map Deliver bs) gateway0)))
              \<le> B)"
proof
  assume "\<exists>B. \<forall>bs. length (items (snd (consume_messages healthy ''chat'' (map Deliver bs)
                                          gateway0))) \<le> B"
  then obtain B where
    B: "\<And>bs. length (items (snd (consume_messages healthy ''chat'' (map Deliver bs) gateway0)))
           \<le> B"
    by blast
  have ok: "open_consumer healthy ''chat'' gateway0 =
              (emit [Consumer_new, Consumer_start, Consumer_subscribe ''chat''] gateway0,
               \<lparr>consumer = True, maxsize = 0, items = [], putters = [], yielded = [],
                outcome = Running\<rparr>)"
    by (rule open_consumer_ok) (simp_all add: healthy_def)
  have dec: "decoded healthy (replicate n ''m'') = replicate n ''m''" for n
    by (induction n) (simp_all add: healthy_def decode_nonempty_def)
  have "items (snd (consume_messages healthy ''chat'' (map Deliver (replicate (Suc B) ''m''))
                      gateway0)) = replicate (Suc B) ''m''"
    using fold_deliver_only
            [where env = healthy and bs = "replicate (Suc B) ''m''"
               and c = "\<lparr>consumer = True, maxsize = 0, items = [], putters = [], yielded = [],
                         outcome = Running\<rparr>"
               and g = "emit [Consumer_new, Consumer_start, Consumer_subscribe ''chat''] gateway0"]
          dec [of "Suc B"]
    by (simp add: consume_messages_def ok del: replicate.simps)
  with B [of "replicate (Suc B) ''m''"] show False by simp
qed

text \<open>
  C4. The broker delivers well-formed messages \<open>ws1\<close> (decoding to \<open>ms1\<close>), then one
  message whose decoding fails, then well-formed \<open>ws2\<close> (decoding to \<open>ms2\<close>), while the
  caller pulls at any moments it likes and neither cancels nor closes. Once the caller
  has pulled often enough, it has been given exactly \<open>ms1 @ ms2\<close>, in this order; the
  decoding error is in the log; the subscription is still open and the consumer has not
  been closed.
\<close>

theorem consume_messages_drops_malformed_keeps_order:
  assumes "new_raises env = None" and "start_raises env = None"
    and "subscribe_raises env = None"
    and "\<not> list_ex is_raise sched"
    and "deliveries sched = ws1 @ [bad] @ ws2"
    and "map (decode env) ws1 = map Inr ms1"
    and "decode env bad = Inl e"
    and "map (decode env) ws2 = map Inr ms2"
  shows "yielded (snd (consume_messages env room
                         (sched @ replicate (length ws1 + length ws2) Pull) g)) = ms1 @ ms2 \<and>
         length (yielded (snd (consume_messages env room
                         (sched @ replicate (length ws1 + length ws2) Pull) g))) =
           length ws1 + length ws2 \<and>
         outcome (snd (consume_messages env room
                         (sched @ replicate (length ws1 + length ws2) Pull) g)) = Running \<and>
         Log EXCEPTION (Error_parsing_message e) \<in>
           set (trace (fst (consume_messages env room
                         (sched @ replicate (length ws1 + length ws2) Pull) g))) \<and>
         (\<exists>es. trace (fst (consume_messages env room
                         (sched @ replicate (length ws1 + length ws2) Pull) g)) = trace g @ es \<and>
               Consumer_close \<notin> set es)"
proof -
  let ?k = "length ws1 + length ws2"
  let ?g0 = "emit [Consumer_new, Consumer_start, Consumer_subscribe room] g"
  let ?c0 = "\<lparr>consumer = True, maxsize = 0, items = [], putters = [], yielded = [],
              outcome = Running\<rparr> :: 'a subscription"
  have o: "open_consumer env room g = (?g0, ?c0)"
    using assms(1,2,3) by (rule open_consumer_ok)
  obtain g1 c1 where f: "fold (step env) sched (?g0, ?c0) = (g1, c1)"
    by (cases "fold (step env) sched (?g0, ?c0)")
  have l1: "length ms1 = length ws1" and l2: "length ms2 = length ws2"
    using assms(6,8) by (metis length_map)+
  have dec: "decoded env (deliveries sched) = ms1 @ ms2"
    using assms(5,7) decoded_all_good [OF assms(6)] decoded_all_good [OF assms(8)] by simp
  have A: "outcome c1 = Running \<and> yielded c1 @ items c1 = ms1 @ ms2 \<and>
           (\<exists>es. trace g1 = trace ?g0 @ es \<and> Consumer_close \<notin> set es)"
    using fold_order [OF _ _ _ assms(4) f] dec by simp
  have Q: "putters c1 = []"
    using fold_queue_unbounded [OF _ _ f] by simp
  have L: "Log EXCEPTION (Error_parsing_message e) \<in> set (trace g1)"
    using fold_parse_error_logged [OF _ _ _ assms(4) f _ assms(7)] assms(5) by simp
  have "length (items c1) \<le> length (yielded c1 @ items c1)" by simp
  also have "\<dots> = ?k" using A l1 l2 by simp
  finally have k: "length (items c1) \<le> ?k" .
  have d: "fold (step env) (replicate ?k Pull) (g1, c1) =
             (g1, c1\<lparr>items := [], yielded := yielded c1 @ items c1\<rparr>)"
    using A Q k by (intro fold_drain) simp_all
  have r: "consume_messages env room (sched @ replicate ?k Pull) g =
             (g1, c1\<lparr>items := [], yielded := yielded c1 @ items c1\<rparr>)"
    using o f d by (simp add: consume_messages_def)
  from A obtain es where es: "trace g1 = trace ?g0 @ es" "Consumer_close \<notin> set es" by blast
  have "trace g1 = trace g @ ([Consumer_new, Consumer_start, Consumer_subscribe room] @ es) \<and>
        Consumer_close \<notin> set ([Consumer_new, Consumer_start, Consumer_subscribe room] @ es)"
    using es by (simp add: emit_def)
  then have T: "\<exists>es. trace g1 = trace g @ es \<and> Consumer_close \<notin> set es" by blast
  show ?thesis
    using r A L T l1 l2 by simp
qed

theorem consume_messages_drops_malformed_keeps_order_witness:
  "new_raises healthy = None \<and> start_raises healthy = None \<and> subscribe_raises healthy = None \<and>
   \<not> list_ex is_raise [Deliver ''m1'', Pull, Deliver ''m2'', Deliver [], Deliver ''m3''] \<and>
   deliveries [Deliver ''m1'', Pull, Deliver ''m2'', Deliver [], Deliver ''m3''] =
     [''m1'', ''m2''] @ [[]] @ [''m3''] \<and>
   map (decode healthy) [''m1'', ''m2''] = map Inr [''m1'', ''m2''] \<and>
   decode healthy [] = Inl (OtherException ''DecodeError'') \<and>
   map (decode healthy) [''m3''] = map Inr [''m3''] \<and>
   yielded (snd (consume_messages healthy ''chat''
     ([Deliver ''m1'', Pull, Deliver ''m2'', Deliver [], Deliver ''m3''] @ replicate 3 Pull)
     gateway0)) = [''m1'', ''m2'', ''m3'']"
proof -
  have 1: "new_raises healthy = None" and 2: "start_raises healthy = None"
    and 3: "subscribe_raises healthy = None"
    by (simp_all add: healthy_def)
  have 4: "\<not> list_ex is_raise [Deliver ''m1'', Pull, Deliver ''m2'', Deliver [], Deliver ''m3'']"
    by simp
  have 5: "deliveries [Deliver ''m1'', Pull, Deliver ''m2'', Deliver [], Deliver ''m3''] =
             [''m1'', ''m2''] @ [[]] @ [''m3'']"
    by simp
  have 6: "map (decode healthy) [''m1'', ''m2''] = map Inr [''m1'', ''m2'']"
    by (simp add: healthy_def decode_nonempty_def)
  have 7: "decode healthy [] = Inl (OtherException ''DecodeError'')"
    by (simp add: healthy_def decode_nonempty_def)
  have 8: "map (decode healthy) [''m3''] = map Inr [''m3'']"
    by (simp add: healthy_def decode_nonempty_def)
  from consume_messages_drops_malformed_keeps_order
         [OF 1 2 3 4 5 6 7 8, of "''chat''" gateway0]
  have "yielded (snd (consume_messages healthy ''chat''
     ([Deliver ''m1'', Pull, Deliver ''m2'', Deliver [], Deliver ''m3''] @ replicate 3 Pull)
     gateway0)) = [''m1'', ''m2'', ''m3'']"
    by (simp add: numeral_3_eq_3)
  with 1 2 3 4 5 6 7 8 show ?thesis by blast
qed


lemma open_consumer_ended_iff:
  "outcome (snd (open_consumer env room g)) \<noteq> Running \<longleftrightarrow>
     new_raises env \<noteq> None \<or> start_raises env \<noteq> None \<or> subscribe_raises env \<noteq> None"
  by (auto simp add: open_consumer_def opening_failed_def finally_close_def Let_def
      split: option.splits signal.splits)

lemma fold_step_ended_iff:
  assumes "outcome c = Running"
  shows "outcome (snd (fold (step env) sched (g, c))) \<noteq> Running \<longleftrightarrow> first_raise sched \<noteq> None"
  using assms
proof (induction sched arbitrary: g c)
  case Nil
  then show ?case by simp
next
  case (Cons a sched)
  obtain g1 c1 where s1: "step env a (g, c) = (g1, c1)"
    by (cases "step env a (g, c)")
  show ?case
  proof (cases a)
    case (Deliver b)
    with Cons.prems s1 have "on_message env b (g, c) = (g1, c1)" by (simp add: step_def)
    from on_message_facts(4) [OF this] Cons.prems have "outcome c1 = Running" by simp
    from Cons.IH [OF this] s1 Deliver show ?thesis by simp
  next
    case Pull
    with Cons.prems s1 have "pull (g, c) = (g1, c1)" by (simp add: step_def)
    from pull_facts(3) [OF this] Cons.prems have "outcome c1 = Running" by simp
    from Cons.IH [OF this] s1 Pull show ?thesis by simp
  next
    case (Raise sig)
    with Cons.prems s1 have "raise_in_loop env sig (g, c) = (g1, c1)" by (simp add: step_def)
    from raise_in_loop_facts(4) [OF this] have n: "outcome c1 \<noteq> Running" .
    then have "fold (step env) sched (g1, c1) = (g1, c1)"
      using fold_step_ended [of "(g1, c1)" env sched] by simp
    with s1 n Raise show ?thesis by simp
  qed
qed

lemma consume_messages_ended_iff:
  "outcome (snd (consume_messages env room sched g)) \<noteq> Running \<longleftrightarrow>
     new_raises env \<noteq> None \<or> start_raises env \<noteq> None \<or> subscribe_raises env \<noteq> None \<or>
     first_raise sched \<noteq> None"
proof -
  obtain g1 c1 where o: "open_consumer env room g = (g1, c1)"
    by (cases "open_consumer env room g")
  have e: "outcome c1 \<noteq> Running \<longleftrightarrow>
     new_raises env \<noteq> None \<or> start_raises env \<noteq> None \<or> subscribe_raises env \<noteq> None"
    using open_consumer_ended_iff [of env room g] o by simp
  show ?thesis
  proof (cases "outcome c1 = Running")
    case True
    with fold_step_ended_iff [OF True, of env sched g1] e o show ?thesis
      by (auto simp add: consume_messages_def)
  next
    case False
    then have "fold (step env) sched (g1, c1) = (g1, c1)"
      using fold_step_ended [of "(g1, c1)" env sched] by simp
    with False e o show ?thesis
      by (auto simp add: consume_messages_def)
  qed
qed

text \<open>How a call ends when \<open>close\<close> returns or raises an \<open>Exception\<close>.\<close>

lemma finally_close_outcome:
  assumes "close_raises env = None \<or> close_raises env = Some (Exc ce)"
  shows "outcome (snd (finally_close env ending (g, c))) = ending"
  using assms by (auto simp add: finally_close_def Let_def)

lemma open_consumer_outcome:
  assumes "close_raises env = None \<or> close_raises env = Some (Exc ce)"
  shows "outcome (snd (open_consumer env room g)) =
           (case new_raises env of
              Some x \<Rightarrow> Raised (Exc x)
            | None \<Rightarrow>
                (case start_raises env of
                   Some x \<Rightarrow> Raised (Exc x)
                 | None \<Rightarrow>
                     (case subscribe_raises env of
                        Some x \<Rightarrow> Raised (Exc x)
                      | None \<Rightarrow> Running)))"
  using finally_close_outcome [OF assms]
  by (simp add: open_consumer_def opening_failed_def Let_def split: option.split)

lemma fold_step_outcome:
  assumes "close_raises env = None \<or> close_raises env = Some (Exc ce)"
    and "outcome c = Running"
  shows "outcome (snd (fold (step env) sched (g, c))) =
           (case first_raise sched of
              None \<Rightarrow> Running
            | Some CancelledError \<Rightarrow> Returned
            | Some (Exc x) \<Rightarrow> Returned
            | Some GeneratorExit \<Rightarrow> Raised GeneratorExit)"
  using assms(2)
proof (induction sched arbitrary: g c)
  case Nil
  then show ?case by simp
next
  case (Cons a sched)
  obtain g1 c1 where s1: "step env a (g, c) = (g1, c1)"
    by (cases "step env a (g, c)")
  show ?case
  proof (cases a)
    case (Deliver b)
    with Cons.prems s1 have "on_message env b (g, c) = (g1, c1)" by (simp add: step_def)
    from on_message_facts(4) [OF this] Cons.prems have "outcome c1 = Running" by simp
    from Cons.IH [OF this] s1 Deliver show ?thesis by simp
  next
    case Pull
    with Cons.prems s1 have "pull (g, c) = (g1, c1)" by (simp add: step_def)
    from pull_facts(3) [OF this] Cons.prems have "outcome c1 = Running" by simp
    from Cons.IH [OF this] s1 Pull show ?thesis by simp
  next
    case (Raise sig)
    with Cons.prems s1 have r: "raise_in_loop env sig (g, c) = (g1, c1)" by (simp add: step_def)
    have o: "outcome c1 =
               (case sig of CancelledError \<Rightarrow> Returned | Exc x \<Rightarrow> Returned
                | GeneratorExit \<Rightarrow> Raised GeneratorExit)"
      using r finally_close_outcome [OF assms(1)]
      by (cases sig) (auto simp add: raise_in_loop_def dest: arg_cong [where f = "\<lambda>p. outcome (snd p)"])
    then have n: "outcome c1 \<noteq> Running" by (cases sig) simp_all
    then have "fold (step env) sched (g1, c1) = (g1, c1)"
      using fold_step_ended [of "(g1, c1)" env sched] by simp
    with s1 o Raise show ?thesis by simp
  qed
qed

lemma consume_messages_outcome:
  assumes "close_raises env = None \<or> close_raises env = Some (Exc ce)"
  shows "outcome (snd (consume_messages env room sched g)) =
           (case new_raises env of
              Some x \<Rightarrow> Raised (Exc x)
            | None \<Rightarrow>
                (case start_raises env of
                   Some x \<Rightarrow> Raised (Exc x)
                 | None \<Rightarrow>
                     (case subscribe_raises env of
                        Some x \<Rightarrow> Raised (Exc x)
                      | None \<Rightarrow>
                          (case first_raise sched of
                             None \<Rightarrow> Running
                           | Some CancelledError \<Rightarrow> Returned
                           | Some (Exc x) \<Rightarrow> Returned
                           | Some GeneratorExit \<Rightarrow> Raised GeneratorExit))))"
proof -
  obtain g1 c1 where o: "open_consumer env room g = (g1, c1)"
    by (cases "open_consumer env room g")
  note O = open_consumer_outcome [OF assms, of room g]
  show ?thesis
  proof (cases "outcome c1 = Running")
    case True
    with O o have "new_raises env = None \<and> start_raises env = None \<and> subscribe_raises env = None"
      by (auto split: option.splits)
    with fold_step_outcome [OF assms True, of sched g1] o show ?thesis
      by (simp add: consume_messages_def)
  next
    case False
    then have "fold (step env) sched (g1, c1) = (g1, c1)"
      using fold_step_ended [of "(g1, c1)" env sched] by simp
    with False O o show ?thesis
      by (auto simp add: consume_messages_def split: option.splits)
  qed
qed


text \<open>
  C5. A call of \<open>consume_messages\<close> never changes the Registry. The call has ended
  exactly when the constructor, \<open>start\<close> or \<open>subscribe\<close> raised, or an exception
  (cancellation, the caller closing the generator, an error) was raised in the loop.
  Among the events of the call, \<open>consumer.close()\<close> occurs exactly once when the
  consumer was constructed and the call has ended in any of these ways, and not at all
  otherwise (still running, or the constructor itself raised, so that there is nothing to
  close). When \<open>close\<close> returns or raises an \<open>Exception\<close>, the call ends as its exit
  reason says: the exception of a failed opening is raised to the caller, cancellation and
  an error in the loop end the generator normally, \<open>GeneratorExit\<close> passes through. An
  \<open>Exception\<close> raised by \<open>close\<close> changes nothing in how the call ends nor in what it
  yielded, and it is logged.
\<close>

theorem consume_messages_closes_once_registry_unchanged:
  "streams_status (fst (consume_messages env room sched g)) = streams_status g \<and>
   (outcome (snd (consume_messages env room sched g)) \<noteq> Running \<longleftrightarrow>
      new_raises env \<noteq> None \<or> start_raises env \<noteq> None \<or> subscribe_raises env \<noteq> None \<or>
      first_raise sched \<noteq> None) \<and>
   (\<exists>es. trace (fst (consume_messages env room sched g)) = trace g @ es \<and>
         count_list es Consumer_close =
           (if new_raises env = None \<and>
               (start_raises env \<noteq> None \<or> subscribe_raises env \<noteq> None \<or>
                first_raise sched \<noteq> None)
            then 1 else 0)) \<and>
   (close_raises env = None \<or> close_raises env = Some (Exc e) \<longrightarrow>
      outcome (snd (consume_messages env room sched g)) =
        (case new_raises env of
           Some x \<Rightarrow> Raised (Exc x)
         | None \<Rightarrow>
             (case start_raises env of
                Some x \<Rightarrow> Raised (Exc x)
              | None \<Rightarrow>
                  (case subscribe_raises env of
                     Some x \<Rightarrow> Raised (Exc x)
                   | None \<Rightarrow>
                       (case first_raise sched of
                          None \<Rightarrow> Running
                        | Some CancelledError \<Rightarrow> Returned
                        | Some (Exc x) \<Rightarrow> Returned
                        | Some GeneratorExit \<Rightarrow> Raised GeneratorExit))))) \<and>
   snd (consume_messages (env\<lparr>close_raises := Some (Exc e)\<rparr>) room sched g) =
     snd (consume_messages (env\<lparr>close_raises := None\<rparr>) room sched g) \<and>
   (close_raises env = Some (Exc e) \<and> new_raises env = None \<and>
    outcome (snd (consume_messages env room sched g)) \<noteq> Running \<longrightarrow>
      Log EXCEPTION (Error_closing_consumer e) \<in>
        set (trace (fst (consume_messages env room sched g))))"
proof -
  obtain g' c' where r: "consume_messages env room sched g = (g', c')"
    by (cases "consume_messages env room sched g")
  note A = consume_messages_closes [OF r]
  note E = consume_messages_ended_iff [of env room sched g]
  from A have reg: "streams_status g' = streams_status g" by simp
  from A obtain es where es: "trace g' = trace g @ es"
    "count_list es Consumer_close =
       (if outcome c' \<noteq> Running \<and> new_raises env = None then 1 else 0)"
    by blast
  have cnt: "count_list es Consumer_close =
           (if new_raises env = None \<and>
               (start_raises env \<noteq> None \<or> subscribe_raises env \<noteq> None \<or>
                first_raise sched \<noteq> None)
            then 1 else 0)"
    using es(2) E r by auto
  have L: "Log EXCEPTION (Error_closing_consumer e) \<in> set (trace g')"
    if h: "close_raises env = Some (Exc e) \<and> new_raises env = None \<and> outcome c' \<noteq> Running"
  proof -
    obtain g1 c1 where o: "open_consumer env room g = (g1, c1)"
      by (cases "open_consumer env room g")
    with r have f: "fold (step env) sched (g1, c1) = (g', c')"
      by (simp add: consume_messages_def)
    from h have cr: "close_raises env = Some (Exc e)" by simp
    have c: "consumer c' = (new_raises env = None)"
      using open_consumer_facts [OF o] fold_step_facts [OF f] by simp
    from fold_close_failure_logged [OF cr open_close_failure_logged [OF cr o] f] h c
    show ?thesis by simp
  qed
  have O: "outcome c' =
        (case new_raises env of
           Some x \<Rightarrow> Raised (Exc x)
         | None \<Rightarrow>
             (case start_raises env of
                Some x \<Rightarrow> Raised (Exc x)
              | None \<Rightarrow>
                  (case subscribe_raises env of
                     Some x \<Rightarrow> Raised (Exc x)
                   | None \<Rightarrow>
                       (case first_raise sched of
                          None \<Rightarrow> Running
                        | Some CancelledError \<Rightarrow> Returned
                        | Some (Exc x) \<Rightarrow> Returned
                        | Some GeneratorExit \<Rightarrow> Raised GeneratorExit))))"
    if h: "close_raises env = None \<or> close_raises env = Some (Exc e)"
    using consume_messages_outcome [OF h, of room sched g] r by simp
  have I: "snd (consume_messages (env\<lparr>close_raises := Some (Exc e)\<rparr>) room sched g) =
     snd (consume_messages (env\<lparr>close_raises := None\<rparr>) room sched g)"
    by (rule consume_close_failure_irrelevant)
  have T: "\<exists>es. trace g' = trace g @ es \<and>
         count_list es Consumer_close =
           (if new_raises env = None \<and>
               (start_raises env \<noteq> None \<or> subscribe_raises env \<noteq> None \<or>
                first_raise sched \<noteq> None)
            then 1 else 0)"
    using es(1) cnt by blast
  have E': "outcome c' \<noteq> Running \<longleftrightarrow>
      new_raises env \<noteq> None \<or> start_raises env \<noteq> None \<or> subscribe_raises env \<noteq> None \<or>
      first_raise sched \<noteq> None"
    using E r by simp
  show ?thesis
    unfolding r fst_conv snd_conv
  proof (intro conjI impI)
    show "streams_status g' = streams_status g" by (rule reg)
    show "outcome c' \<noteq> Running \<longleftrightarrow>
      new_raises env \<noteq> None \<or> start_raises env \<noteq> None \<or> subscribe_raises env \<noteq> None \<or>
      first_raise sched \<noteq> None"
      by (rule E')
    show "\<exists>es. trace g' = trace g @ es \<and>
         count_list es Consumer_close =
           (if new_raises env = None \<and>
               (start_raises env \<noteq> None \<or> subscribe_raises env \<noteq> None \<or>
                first_raise sched \<noteq> None)
            then 1 else 0)"
      by (rule T)
    show "outcome c' =
        (case new_raises env of
           Some x \<Rightarrow> Raised (Exc x)
         | None \<Rightarrow>
             (case start_raises env of
                Some x \<Rightarrow> Raised (Exc x)
              | None \<Rightarrow>
                  (case subscribe_raises env of
                     Some x \<Rightarrow> Raised (Exc x)
                   | None \<Rightarrow>
                       (case first_raise sched of
                          None \<Rightarrow> Running
                        | Some CancelledError \<Rightarrow> Returned
                        | Some (Exc x) \<Rightarrow> Returned
                        | Some GeneratorExit \<Rightarrow> Raised GeneratorExit))))"
      if "close_raises env = None \<or> close_raises env = Some (Exc e)"
      using that by (rule O)
    show "snd (consume_messages (env\<lparr>close_raises := Some (Exc e)\<rparr>) room sched g) =
     snd (consume_messages (env\<lparr>close_raises := None\<rparr>) room sched g)"
      by (rule I)
    show "Log EXCEPTION (Error_closing_consumer e) \<in> set (trace g')"
      if "close_raises env = Some (Exc e) \<and> new_raises env = None \<and> outcome c' \<noteq> Running"
      using that by (rule L)
  qed
qed

theorem consume_messages_closes_once_registry_unchanged_witness:
  "close_raises close_fails = Some (Exc (OtherException ''close failed'')) \<and>
   new_raises close_fails = None \<and>
   first_raise [Deliver ''m1'', Pull, Raise CancelledError] = Some CancelledError \<and>
   consume_messages close_fails ''chat'' [Deliver ''m1'', Pull, Raise CancelledError] registered =
     (\<lparr>streams_status = [''chat'' \<mapsto> True],
       trace = [Consumer_new, Consumer_start, Consumer_subscribe ''chat'',
                Log ERROR Cancelled_error, Log DEBUG Inside_finally, Log DEBUG Trying_to_close,
                Consumer_close,
                Log EXCEPTION (Error_closing_consumer (OtherException ''close failed''))]\<rparr>,
      \<lparr>consumer = True, maxsize = 0, items = [], putters = [], yielded = [''m1''],
       outcome = Returned\<rparr>) \<and>
   outcome (snd (consume_messages close_fails ''chat''
                   [Deliver ''m1'', Pull, Raise CancelledError] registered)) = Returned \<and>
   Log EXCEPTION (Error_closing_consumer (OtherException ''close failed'')) \<in>
     set (trace (fst (consume_messages close_fails ''chat''
                        [Deliver ''m1'', Pull, Raise CancelledError] registered))) \<and>
   consume_messages start_fails ''chat'' [Pull] gateway0 =
     (\<lparr>streams_status = Map.empty,
       trace = [Consumer_new, Consumer_start,
                Log EXCEPTION (Error_in_consume_messages ConnectionRefusedError),
                Log DEBUG Inside_finally, Log DEBUG Trying_to_close, Consumer_close]\<rparr>,
      \<lparr>consumer = True, maxsize = 0, items = [], putters = [], yielded = [],
       outcome = Raised (Exc ConnectionRefusedError)\<rparr>)"
proof -
  have 1: "close_raises close_fails = Some (Exc (OtherException ''close failed''))"
    and 2: "new_raises close_fails = None"
    and st: "start_raises close_fails = None" and su: "subscribe_raises close_fails = None"
    by (simp_all add: close_fails_def healthy_def)
  have 3: "first_raise [Deliver ''m1'', Pull, Raise CancelledError] = Some CancelledError"
    by simp
  have 4: "consume_messages close_fails ''chat'' [Deliver ''m1'', Pull, Raise CancelledError]
             registered =
     (\<lparr>streams_status = [''chat'' \<mapsto> True],
       trace = [Consumer_new, Consumer_start, Consumer_subscribe ''chat'',
                Log ERROR Cancelled_error, Log DEBUG Inside_finally, Log DEBUG Trying_to_close,
                Consumer_close,
                Log EXCEPTION (Error_closing_consumer (OtherException ''close failed''))]\<rparr>,
      \<lparr>consumer = True, maxsize = 0, items = [], putters = [], yielded = [''m1''],
       outcome = Returned\<rparr>)"
    by (simp add: consume_messages_def open_consumer_def step_def on_message_def pull_def
        raise_in_loop_def finally_close_def put_def full_def wake_putter_def close_fails_def
        healthy_def decode_nonempty_def registered_def emit_def Let_def)
  note T = consume_messages_closes_once_registry_unchanged
         [where env = close_fails and e = "OtherException ''close failed''" and room = "''chat''"
            and sched = "[Deliver ''m1'', Pull, Raise CancelledError]" and g = registered]
  from T 1 have 5: "outcome (snd (consume_messages close_fails ''chat''
                   [Deliver ''m1'', Pull, Raise CancelledError] registered)) = Returned"
    using 2 st su 3 by simp
  then have n: "outcome (snd (consume_messages close_fails ''chat''
                   [Deliver ''m1'', Pull, Raise CancelledError] registered)) \<noteq> Running"
    by simp
  from T 1 2 n have 6: "Log EXCEPTION (Error_closing_consumer (OtherException ''close failed'')) \<in>
     set (trace (fst (consume_messages close_fails ''chat''
                        [Deliver ''m1'', Pull, Raise CancelledError] registered)))"
    by blast
  have 7: "consume_messages start_fails ''chat'' [Pull] gateway0 =
     (\<lparr>streams_status = Map.empty,
       trace = [Consumer_new, Consumer_start,
                Log EXCEPTION (Error_in_consume_messages ConnectionRefusedError),
                Log DEBUG Inside_finally, Log DEBUG Trying_to_close, Consumer_close]\<rparr>,
      \<lparr>consumer = True, maxsize = 0, items = [], putters = [], yielded = [],
       outcome = Raised (Exc ConnectionRefusedError)\<rparr>)"
    by (simp add: consume_messages_def open_consumer_def opening_failed_def step_def
        finally_close_def start_fails_def healthy_def gateway0_def emit_def Let_def)
  from 1 2 3 4 5 6 7 show ?thesis by blast
qed

lemma admin_sleeps_append [simp]: "admin_sleeps (xs @ ys) = admin_sleeps xs @ admin_sleeps ys"
  by (induction xs rule: admin_sleeps.induct) simp_all

lemma request_loop_unreachable_sleeps:
  "admin_sleeps (snd (request_loop True max_retries retry_delay user_url
                        (\<lambda>k. Raises ClientConnectionError) attempt evs)) =
     admin_sleeps evs @ map (\<lambda>k. retry_delay * 2 ^ k) [attempt..<max_retries - 1]"
proof (induction "max_retries - attempt" arbitrary: attempt evs)
  case 0
  then show ?case by simp
next
  case (Suc d)
  then have lt: "attempt < max_retries" by simp
  show ?case
  proof (cases "Suc attempt < max_retries")
    case True
    then have u: "[attempt..<max_retries - 1] = attempt # [Suc attempt..<max_retries - 1]"
      by (simp add: upt_conv_Cons)
    from Suc.hyps(2) have "d = max_retries - Suc attempt" by simp
    from Suc.hyps(1) [OF this] True lt u show ?thesis
      by simp
  next
    case False
    with lt have "max_retries - 1 = attempt" by simp
    with False lt show ?thesis by simp
  qed
qed

text \<open>
  C9. The claim: stream creation waits a fixed five seconds between attempts, the
  admin client an exponentially growing delay between connection-failure attempts. The
  delays are written so (\<open>sleep(5)\<close>; \<open>sleep(retry_delay * 2 ** attempt)\<close>, which for an
  exception class in place of \<open>ClientTimeout\<close> gives the schedule of the lemma above),
  but neither wait stands between two attempts. Against a broker that refuses,
  \<open>create_stream\<close> makes one attempt, waits five seconds once, and drops the coroutine
  of the next attempt. Against a server that cannot be reached, matching the exception
  with the tuple that names \<open>aiohttp.ClientTimeout\<close> raises \<open>TypeError\<close> at the first
  attempt, before any wait; with a valid tuple the waits would be 1 and 2 seconds.
\<close>

theorem retry_schedules_at_unreachable_services:
  "sleeps (trace (snd (create_stream refusing ''chat'' 10 0 gateway0))) = [5] \<and>
   create_calls (trace (snd (create_stream refusing ''chat'' 10 0 gateway0))) =
     [Producer_create_stream ''chat''] \<and>
   last (trace (snd (create_stream refusing ''chat'' 10 0 gateway0))) =
     Coroutine_never_awaited ''chat'' 10 1 \<and>
   make_request_with_retry False 3 1 False unreachable = (TypeError, []) \<and>
   admin_sleeps (snd (make_request_with_retry True 3 1 False unreachable)) = [1, 2]"
  by (simp add: create_stream_def refusing_def gateway0_def emit_def strip_def isspace_def
      create_calls_def make_request_with_retry_def unreachable_def numeral_3_eq_3)

end
